theory Spec2Isabelle
  imports Main "HOL-Library.Word"
begin

section \<open>Shared vocabulary of the two cache engines\<close>

text \<open>
  Both packages (\<open>lru/lru.go\<close>, \<open>lfu/lfu.go\<close>) keep their entries in heap objects linked by
  \<open>prev\<close>/\<open>next\<close> pointers. The model keeps an explicit store from addresses to entry
  records; a pointer is an \<open>addr option\<close> with \<open>None\<close> for Go's \<open>nil\<close>. Go's \<open>uint\<close> is
  modelled at 64 bits. The \<open>sync.RWMutex\<close> field is left out: the model is sequential.
\<close>

type_synonym addr = nat

text \<open>
  A run-time panic ends a call. \<open>NilDereference\<close> is Go's nil pointer dereference.
  \<open>InvalidAddress\<close> is a read or write through a pointer that names no allocated entry:
  Go's memory safety excludes it, and the model returns it instead of an unspecified value.
\<close>

datatype panic = NilDereference | InvalidAddress

definition bind_res :: "panic + 'a \<Rightarrow> ('a \<Rightarrow> panic + 'b) \<Rightarrow> panic + 'b" where
  "bind_res m f = (case m of Inl e \<Rightarrow> Inl e | Inr x \<Rightarrow> f x)"

text \<open>The calls of the shared contract (\<open>cacherno.go\<close>) and what they return.
  \<open>Get\<close> returns \<open>(V, bool)\<close>: \<open>Some v\<close> stands for \<open>(v, true)\<close>, \<open>None\<close> for \<open>(zero, false)\<close>.\<close>

datatype ('k, 'v) call = Get 'k | Add 'k 'v | Remove 'k

datatype 'v reply = GetReply "'v option" | AddReply bool bool | RemoveReply bool

section \<open>The LRU engine (\<open>lru/lru.go\<close>)\<close>

record ('k, 'v) lru_entry =
  lru_key :: 'k
  lru_value :: 'v
  lru_prev :: "addr option"
  lru_next :: "addr option"

record ('k, 'v) lru_cache =
  lru_data :: "'k \<rightharpoonup> addr"
  lru_capacity :: "64 word"
  lru_head :: "addr option"
  lru_tail :: "addr option"
  lru_store :: "addr \<rightharpoonup> ('k, 'v) lru_entry"
  lru_fresh :: addr

definition lru_NewCache :: "64 word \<Rightarrow> string + ('k, 'v) lru_cache" where
  "lru_NewCache capacity =
     (if capacity \<le> 0 then Inl ''must provide a positive size''
      else Inr \<lparr>lru_data = Map.empty, lru_capacity = capacity, lru_head = None,
                lru_tail = None, lru_store = Map.empty, lru_fresh = 0\<rparr>)"

definition lru_load :: "('k, 'v) lru_cache \<Rightarrow> addr \<Rightarrow> panic + ('k, 'v) lru_entry" where
  "lru_load c a = (case lru_store c a of None \<Rightarrow> Inl InvalidAddress | Some e \<Rightarrow> Inr e)"

definition lru_modify ::
  "('k, 'v) lru_cache \<Rightarrow> addr \<Rightarrow> (('k, 'v) lru_entry \<Rightarrow> ('k, 'v) lru_entry)
    \<Rightarrow> panic + ('k, 'v) lru_cache" where
  "lru_modify c a f =
     (case lru_store c a of
        None \<Rightarrow> Inl InvalidAddress
      | Some e \<Rightarrow> Inr (c\<lparr>lru_store := (lru_store c)(a \<mapsto> f e)\<rparr>))"

definition lru_removeFromList :: "('k, 'v) lru_cache \<Rightarrow> addr \<Rightarrow> panic + ('k, 'v) lru_cache" where
  "lru_removeFromList c node =
     bind_res (lru_load c node) (\<lambda>n.
     bind_res (case lru_prev n of
                 Some p \<Rightarrow> lru_modify c p (\<lambda>e. e\<lparr>lru_next := lru_next n\<rparr>)
               | None \<Rightarrow> Inr (c\<lparr>lru_head := lru_next n\<rparr>)) (\<lambda>c1.
     bind_res (lru_load c1 node) (\<lambda>n1.
       case lru_next n1 of
         Some q \<Rightarrow> lru_modify c1 q (\<lambda>e. e\<lparr>lru_prev := lru_prev n1\<rparr>)
       | None \<Rightarrow> Inr (c1\<lparr>lru_tail := lru_prev n1\<rparr>))))"

definition lru_addToFront :: "('k, 'v) lru_cache \<Rightarrow> addr \<Rightarrow> panic + ('k, 'v) lru_cache" where
  "lru_addToFront c node =
     (case lru_head c of
        None \<Rightarrow> Inr (c\<lparr>lru_head := Some node, lru_tail := Some node\<rparr>)
      | Some h \<Rightarrow>
          bind_res (lru_modify c node (\<lambda>e. e\<lparr>lru_next := Some h, lru_prev := None\<rparr>)) (\<lambda>c1.
          bind_res (lru_modify c1 h (\<lambda>e. e\<lparr>lru_prev := Some node\<rparr>)) (\<lambda>c2.
          Inr (c2\<lparr>lru_head := Some node\<rparr>))))"

definition lru_moveToFront :: "('k, 'v) lru_cache \<Rightarrow> addr \<Rightarrow> panic + ('k, 'v) lru_cache" where
  "lru_moveToFront c node =
     (if lru_head c = Some node then Inr c
      else bind_res (lru_removeFromList c node) (\<lambda>c1. lru_addToFront c1 node))"

definition lru_removeTail :: "('k, 'v) lru_cache \<Rightarrow> panic + ('k, 'v) lru_cache" where
  "lru_removeTail c =
     (case lru_tail c of
        None \<Rightarrow> Inr c
      | Some t \<Rightarrow>
          bind_res (lru_load c t) (\<lambda>e.
          lru_removeFromList (c\<lparr>lru_data := (lru_data c)(lru_key e := None)\<rparr>) t))"

definition lru_removeNode :: "('k, 'v) lru_cache \<Rightarrow> addr \<Rightarrow> panic + ('k, 'v) lru_cache" where
  "lru_removeNode c node = lru_removeFromList c node"

text \<open>\<open>len(c.data)\<close> is the number of keys of the map; it is compared with the capacity as
  a natural number (\<open>len\<close> is a non-negative \<open>int\<close>, so \<open>uint(len(c.data))\<close> is exact).\<close>

definition lru_Add ::
  "('k, 'v) lru_cache \<Rightarrow> 'k \<Rightarrow> 'v \<Rightarrow> panic + (('k, 'v) lru_cache \<times> bool \<times> bool)" where
  "lru_Add c key value =
     (case lru_data c key of
        Some node \<Rightarrow>
          bind_res (lru_modify c node (\<lambda>e. e\<lparr>lru_value := value\<rparr>)) (\<lambda>c1.
          bind_res (lru_moveToFront c1 node) (\<lambda>c2.
          Inr (c2, False, True)))
      | None \<Rightarrow>
          bind_res (lru_addToFront
              (c\<lparr>lru_store := (lru_store c)(lru_fresh c \<mapsto>
                     \<lparr>lru_key = key, lru_value = value, lru_prev = None, lru_next = None\<rparr>),
                 lru_fresh := Suc (lru_fresh c),
                 lru_data := (lru_data c)(key \<mapsto> lru_fresh c)\<rparr>)
              (lru_fresh c)) (\<lambda>c2.
          if unat (lru_capacity c2) < card (dom (lru_data c2))
          then bind_res (lru_removeTail c2) (\<lambda>c3. Inr (c3, True, False))
          else Inr (c2, False, False)))"

definition lru_Get ::
  "('k, 'v) lru_cache \<Rightarrow> 'k \<Rightarrow> panic + (('k, 'v) lru_cache \<times> 'v option)" where
  "lru_Get c key =
     (case lru_data c key of
        Some node \<Rightarrow>
          bind_res (lru_moveToFront c node) (\<lambda>c1.
          bind_res (lru_load c1 node) (\<lambda>e.
          Inr (c1, Some (lru_value e))))
      | None \<Rightarrow> Inr (c, None))"

definition lru_Remove ::
  "('k, 'v) lru_cache \<Rightarrow> 'k \<Rightarrow> panic + (('k, 'v) lru_cache \<times> bool)" where
  "lru_Remove c key =
     (case lru_data c key of
        Some node \<Rightarrow>
          bind_res (lru_removeNode c node) (\<lambda>c1.
          Inr (c1\<lparr>lru_data := (lru_data c1)(key := None)\<rparr>, True))
      | None \<Rightarrow> Inr (c, False))"

text \<open>One call of the contract, and a sequence of calls that stops at the first panic.\<close>

fun lru_call ::
  "('k, 'v) lru_cache \<Rightarrow> ('k, 'v) call \<Rightarrow> panic + (('k, 'v) lru_cache \<times> 'v reply)" where
  "lru_call c (Get k) = bind_res (lru_Get c k) (\<lambda>(c1, r). Inr (c1, GetReply r))"
| "lru_call c (Add k v) = bind_res (lru_Add c k v) (\<lambda>(c1, e, r). Inr (c1, AddReply e r))"
| "lru_call c (Remove k) = bind_res (lru_Remove c k) (\<lambda>(c1, r). Inr (c1, RemoveReply r))"

fun lru_run ::
  "('k, 'v) lru_cache \<Rightarrow> ('k, 'v) call list \<Rightarrow> panic + (('k, 'v) lru_cache \<times> 'v reply list)" where
  "lru_run c [] = Inr (c, [])"
| "lru_run c (x # xs) =
     bind_res (lru_call c x) (\<lambda>(c1, r).
     bind_res (lru_run c1 xs) (\<lambda>(c2, rs). Inr (c2, r # rs)))"

section \<open>The LFU engine (\<open>lfu/lfu.go\<close>)\<close>

text \<open>
  The fields \<open>head\<close> and \<open>tail\<close> of a \<open>frequencyNode\<close> have the interface type \<open>any\<close>. An
  interface value is either the nil interface or a pointer of type \<open>*entry[K, V]\<close>, and that
  pointer may itself be nil; Go's \<open>x == nil\<close> on an interface holds for the nil interface only.
\<close>

datatype iface = NilIface | EntryPtr "addr option"

record ('k, 'v) lfu_entry =
  lfu_key :: 'k
  lfu_value :: 'v
  lfu_frequency :: "64 word"
  lfu_prev :: "addr option"
  lfu_next :: "addr option"

text \<open>The \<open>prev\<close>/\<open>next\<close> fields of \<open>frequencyNode\<close> are never written or read by the code and
  are left out. A \<open>*frequencyNode\<close> is only ever held by the map slot of its own frequency, so
  the map holds the node by value.\<close>

record frequencyNode =
  fn_freq :: "64 word"
  fn_head :: iface
  fn_tail :: iface

record ('k, 'v) lfu_cache =
  lfu_data :: "'k \<rightharpoonup> addr"
  lfu_frequencies :: "64 word \<rightharpoonup> frequencyNode"
  lfu_capacity :: "64 word"
  lfu_minFrequency :: "64 word"
  lfu_store :: "addr \<rightharpoonup> ('k, 'v) lfu_entry"
  lfu_fresh :: addr

definition lfu_NewCache :: "64 word \<Rightarrow> string + ('k, 'v) lfu_cache" where
  "lfu_NewCache capacity =
     (if capacity \<le> 0 then Inl ''must provide a positive size''
      else Inr \<lparr>lfu_data = Map.empty, lfu_frequencies = Map.empty, lfu_capacity = capacity,
                lfu_minFrequency = 0, lfu_store = Map.empty, lfu_fresh = 0\<rparr>)"

definition lfu_load :: "('k, 'v) lfu_cache \<Rightarrow> addr \<Rightarrow> panic + ('k, 'v) lfu_entry" where
  "lfu_load c a = (case lfu_store c a of None \<Rightarrow> Inl InvalidAddress | Some e \<Rightarrow> Inr e)"

definition lfu_modify ::
  "('k, 'v) lfu_cache \<Rightarrow> addr \<Rightarrow> (('k, 'v) lfu_entry \<Rightarrow> ('k, 'v) lfu_entry)
    \<Rightarrow> panic + ('k, 'v) lfu_cache" where
  "lfu_modify c a f =
     (case lfu_store c a of
        None \<Rightarrow> Inl InvalidAddress
      | Some e \<Rightarrow> Inr (c\<lparr>lfu_store := (lfu_store c)(a \<mapsto> f e)\<rparr>))"

text \<open>
  \<open>removeFromFrequency\<close>. The argument is a pointer that may be nil (\<open>evictLeastFrequent\<close>
  passes the result of a type assertion); reading \<open>node.frequency\<close> through nil panics.
  The local \<open>freqNode\<close> is threaded as \<open>b\<close>, \<open>b1\<close>, \<open>b2\<close> and written back at the end, unless
  \<open>freqNode.head == nil\<close> deletes the map slot.
\<close>

definition lfu_removeFromFrequency ::
  "('k, 'v) lfu_cache \<Rightarrow> addr option \<Rightarrow> panic + ('k, 'v) lfu_cache" where
  "lfu_removeFromFrequency c node =
     (case node of
        None \<Rightarrow> Inl NilDereference
      | Some a \<Rightarrow>
          bind_res (lfu_load c a) (\<lambda>n.
          case lfu_frequencies c (lfu_frequency n) of
            None \<Rightarrow> Inr c
          | Some b \<Rightarrow>
              bind_res (case lfu_prev n of
                          Some p \<Rightarrow>
                            bind_res (lfu_modify c p (\<lambda>e. e\<lparr>lfu_next := lfu_next n\<rparr>))
                              (\<lambda>c1. Inr (c1, b))
                        | None \<Rightarrow> Inr (c, b\<lparr>fn_head := EntryPtr (lfu_next n)\<rparr>)) (\<lambda>(c1, b1).
              bind_res (lfu_load c1 a) (\<lambda>n1.
              bind_res (case lfu_next n1 of
                          Some q \<Rightarrow>
                            bind_res (lfu_modify c1 q (\<lambda>e. e\<lparr>lfu_prev := lfu_prev n1\<rparr>))
                              (\<lambda>c2. Inr (c2, b1))
                        | None \<Rightarrow> Inr (c1, b1\<lparr>fn_tail := EntryPtr (lfu_prev n1)\<rparr>)) (\<lambda>(c2, b2).
              lfu_modify
                (c2\<lparr>lfu_frequencies :=
                      (if fn_head b2 = NilIface
                       then (lfu_frequencies c2)(lfu_frequency n := None)
                       else (lfu_frequencies c2)(lfu_frequency n \<mapsto> b2))\<rparr>)
                a (\<lambda>e. e\<lparr>lfu_prev := None, lfu_next := None\<rparr>))))))"

text \<open>
  \<open>addToFrequency\<close>. After the test \<open>freqNode.head == nil\<close> has failed the head is an
  \<open>*entry\<close> pointer, so the type assertions \<open>freqNode.head.(*entry[K, V])\<close> succeed and yield
  that pointer, nil or not; the assignment to its \<open>prev\<close> field dereferences it.
\<close>

definition lfu_addToFrequency ::
  "('k, 'v) lfu_cache \<Rightarrow> addr \<Rightarrow> 64 word \<Rightarrow> panic + ('k, 'v) lfu_cache" where
  "lfu_addToFrequency c node freq =
     (let freqNode = (case lfu_frequencies c freq of
                        None \<Rightarrow> \<lparr>fn_freq = freq, fn_head = NilIface, fn_tail = NilIface\<rparr>
                      | Some b \<Rightarrow> b)
      in case fn_head freqNode of
        NilIface \<Rightarrow>
          Inr (c\<lparr>lfu_frequencies := (lfu_frequencies c)(freq \<mapsto>
                   freqNode\<lparr>fn_head := EntryPtr (Some node),
                            fn_tail := EntryPtr (Some node)\<rparr>)\<rparr>)
      | EntryPtr h \<Rightarrow>
          bind_res (lfu_modify c node (\<lambda>e. e\<lparr>lfu_next := h\<rparr>)) (\<lambda>c1.
          case h of
            None \<Rightarrow> Inl NilDereference
          | Some ha \<Rightarrow>
              bind_res (lfu_modify c1 ha (\<lambda>e. e\<lparr>lfu_prev := Some node\<rparr>)) (\<lambda>c2.
              Inr (c2\<lparr>lfu_frequencies := (lfu_frequencies c2)(freq \<mapsto>
                        freqNode\<lparr>fn_head := EntryPtr (Some node)\<rparr>)\<rparr>))))"

definition lfu_incrementFrequency ::
  "('k, 'v) lfu_cache \<Rightarrow> addr \<Rightarrow> panic + ('k, 'v) lfu_cache" where
  "lfu_incrementFrequency c node =
     bind_res (lfu_load c node) (\<lambda>n.
     bind_res (lfu_removeFromFrequency c (Some node)) (\<lambda>c1.
     bind_res (lfu_modify c1 node (\<lambda>e. e\<lparr>lfu_frequency := lfu_frequency n + 1\<rparr>)) (\<lambda>c2.
     bind_res (lfu_addToFrequency c2 node (lfu_frequency n + 1)) (\<lambda>c3.
     Inr (if lfu_frequency n = lfu_minFrequency c3 \<and> lfu_frequencies c3 (lfu_frequency n) = None
          then c3\<lparr>lfu_minFrequency := lfu_frequency n + 1\<rparr>
          else c3)))))"

definition lfu_evictLeastFrequent :: "('k, 'v) lfu_cache \<Rightarrow> panic + ('k, 'v) lfu_cache" where
  "lfu_evictLeastFrequent c =
     (if card (dom (lfu_data c)) = 0 then Inr c
      else case lfu_frequencies c (lfu_minFrequency c) of
        None \<Rightarrow> Inr c
      | Some b \<Rightarrow>
          (case fn_tail b of
             NilIface \<Rightarrow> Inr c
           | EntryPtr leastFreqNode \<Rightarrow>
               bind_res (lfu_removeFromFrequency c leastFreqNode) (\<lambda>c1.
               case leastFreqNode of
                 None \<Rightarrow> Inl NilDereference
               | Some a \<Rightarrow>
                   bind_res (lfu_load c1 a) (\<lambda>e.
                   Inr (c1\<lparr>lfu_data := (lfu_data c1)(lfu_key e := None)\<rparr>)))))"

definition lfu_Add ::
  "('k, 'v) lfu_cache \<Rightarrow> 'k \<Rightarrow> 'v \<Rightarrow> panic + (('k, 'v) lfu_cache \<times> bool \<times> bool)" where
  "lfu_Add c key value =
     (case lfu_data c key of
        Some node \<Rightarrow>
          bind_res (lfu_modify c node (\<lambda>e. e\<lparr>lfu_value := value\<rparr>)) (\<lambda>c1.
          bind_res (lfu_incrementFrequency c1 node) (\<lambda>c2.
          Inr (c2, False, True)))
      | None \<Rightarrow>
          bind_res (if unat (lfu_capacity c) \<le> card (dom (lfu_data c))
                    then bind_res (lfu_evictLeastFrequent c) (\<lambda>c1. Inr (c1, True))
                    else Inr (c, False)) (\<lambda>(c1, evicted).
          bind_res (lfu_addToFrequency
              (c1\<lparr>lfu_store := (lfu_store c1)(lfu_fresh c1 \<mapsto>
                      \<lparr>lfu_key = key, lfu_value = value, lfu_frequency = 1,
                       lfu_prev = None, lfu_next = None\<rparr>),
                  lfu_fresh := Suc (lfu_fresh c1),
                  lfu_data := (lfu_data c1)(key \<mapsto> lfu_fresh c1)\<rparr>)
              (lfu_fresh c1) 1) (\<lambda>c3.
          Inr (c3\<lparr>lfu_minFrequency := 1\<rparr>, evicted, False))))"

definition lfu_Get ::
  "('k, 'v) lfu_cache \<Rightarrow> 'k \<Rightarrow> panic + (('k, 'v) lfu_cache \<times> 'v option)" where
  "lfu_Get c key =
     (case lfu_data c key of
        Some node \<Rightarrow>
          bind_res (lfu_incrementFrequency c node) (\<lambda>c1.
          bind_res (lfu_load c1 node) (\<lambda>e.
          Inr (c1, Some (lfu_value e))))
      | None \<Rightarrow> Inr (c, None))"

definition lfu_Remove ::
  "('k, 'v) lfu_cache \<Rightarrow> 'k \<Rightarrow> panic + (('k, 'v) lfu_cache \<times> bool)" where
  "lfu_Remove c key =
     (case lfu_data c key of
        Some node \<Rightarrow>
          bind_res (lfu_removeFromFrequency c (Some node)) (\<lambda>c1.
          Inr (c1\<lparr>lfu_data := (lfu_data c1)(key := None)\<rparr>, True))
      | None \<Rightarrow> Inr (c, False))"

fun lfu_call ::
  "('k, 'v) lfu_cache \<Rightarrow> ('k, 'v) call \<Rightarrow> panic + (('k, 'v) lfu_cache \<times> 'v reply)" where
  "lfu_call c (Get k) = bind_res (lfu_Get c k) (\<lambda>(c1, r). Inr (c1, GetReply r))"
| "lfu_call c (Add k v) = bind_res (lfu_Add c k v) (\<lambda>(c1, e, r). Inr (c1, AddReply e r))"
| "lfu_call c (Remove k) = bind_res (lfu_Remove c k) (\<lambda>(c1, r). Inr (c1, RemoveReply r))"

fun lfu_run ::
  "('k, 'v) lfu_cache \<Rightarrow> ('k, 'v) call list \<Rightarrow> panic + (('k, 'v) lfu_cache \<times> 'v reply list)" where
  "lfu_run c [] = Inr (c, [])"
| "lfu_run c (x # xs) =
     bind_res (lfu_call c x) (\<lambda>(c1, r).
     bind_res (lfu_run c1 xs) (\<lambda>(c2, rs). Inr (c2, r # rs)))"

text \<open>A whole session: construction, then a sequence of calls on the cache it returned.\<close>

definition lru_session ::
  "64 word \<Rightarrow> ('k, 'v) call list
    \<Rightarrow> string + (panic + (('k, 'v) lru_cache \<times> 'v reply list))" where
  "lru_session capacity calls =
     (case lru_NewCache capacity of Inl e \<Rightarrow> Inl e | Inr c \<Rightarrow> Inr (lru_run c calls))"

definition lfu_session ::
  "64 word \<Rightarrow> ('k, 'v) call list
    \<Rightarrow> string + (panic + (('k, 'v) lfu_cache \<times> 'v reply list))" where
  "lfu_session capacity calls =
     (case lfu_NewCache capacity of Inl e \<Rightarrow> Inl e | Inr c \<Rightarrow> Inr (lfu_run c calls))"

text \<open>What a session lets the caller observe: the replies, and the cache it ended in.
  Both are \<open>None\<close> when construction failed or a call panicked.\<close>

definition replies_of :: "string + (panic + ('c \<times> 'v reply list)) \<Rightarrow> 'v reply list option" where
  "replies_of r = (case r of Inr (Inr (c, rs)) \<Rightarrow> Some rs | _ \<Rightarrow> None)"

definition state_of :: "string + (panic + ('c \<times> 'v reply list)) \<Rightarrow> 'c option" where
  "state_of r = (case r of Inr (Inr (c, rs)) \<Rightarrow> Some c | _ \<Rightarrow> None)"

section \<open>Invariants of the store\<close>

text \<open>
  The definitions of this section are not part of the program. They describe the states
  the program keeps its store in: which addresses form a list, in which order, and how the
  index relates to them. A pair \<open>(prev, next)\<close> is the link view of an entry.
\<close>

type_synonym links = "addr \<rightharpoonup> (addr option \<times> addr option)"

text \<open>
  \<open>dllseg L p as n\<close>: the addresses \<open>as\<close> form a doubly-linked segment under the links \<open>L\<close>,
  entered from \<open>p\<close> (the \<open>prev\<close> of the first) and left to \<open>n\<close> (the \<open>next\<close> of the last).
  \<open>hd_or as n\<close> is the first address of \<open>as\<close>, or \<open>n\<close> for the empty list; \<open>last_or as p\<close>
  is the last one, or \<open>p\<close>.
\<close>

fun hd_or :: "addr list \<Rightarrow> addr option \<Rightarrow> addr option" where
  "hd_or [] n = n"
| "hd_or (b # bs) n = Some b"

fun last_or :: "addr list \<Rightarrow> addr option \<Rightarrow> addr option" where
  "last_or [] p = p"
| "last_or (b # bs) p = last_or bs (Some b)"

fun dllseg :: "links \<Rightarrow> addr option \<Rightarrow> addr list \<Rightarrow> addr option \<Rightarrow> bool" where
  "dllseg L p [] n = True"
| "dllseg L p (a # as) n = (L a = Some (p, hd_or as n) \<and> dllseg L (Some a) as n)"

subsection \<open>LRU\<close>

text \<open>
  \<open>lru_list c as\<close>: the recency list of the cache is \<open>as\<close>, from \<open>head\<close> to \<open>tail\<close>.
  \<open>lru_index c as\<close>: the index maps a key to an address exactly when that address is on
  the list and its entry carries the key. \<open>lru_frame c c'\<close>: the two caches agree on
  everything but links, head and tail. \<open>lru_wf\<close> puts list and index together and adds
  that addresses from \<open>lru_fresh\<close> on are not allocated; \<open>lru_inv\<close> says that some list no
  longer than the capacity does all this.
\<close>

definition lru_links :: "(addr \<rightharpoonup> ('k, 'v) lru_entry) \<Rightarrow> links" where
  "lru_links s = (\<lambda>a. map_option (\<lambda>e. (lru_prev e, lru_next e)) (s a))"

definition lru_payload :: "(addr \<rightharpoonup> ('k, 'v) lru_entry) \<Rightarrow> addr \<rightharpoonup> ('k \<times> 'v)" where
  "lru_payload s = (\<lambda>a. map_option (\<lambda>e. (lru_key e, lru_value e)) (s a))"

definition lru_list :: "('k, 'v) lru_cache \<Rightarrow> addr list \<Rightarrow> bool" where
  "lru_list c as \<longleftrightarrow>
     distinct as \<and> dllseg (lru_links (lru_store c)) None as None \<and>
     lru_head c = hd_or as None \<and> lru_tail c = last_or as None"

definition lru_frame :: "('k, 'v) lru_cache \<Rightarrow> ('k, 'v) lru_cache \<Rightarrow> bool" where
  "lru_frame c c' \<longleftrightarrow>
     lru_payload (lru_store c') = lru_payload (lru_store c) \<and> lru_data c' = lru_data c \<and>
     lru_capacity c' = lru_capacity c \<and> lru_fresh c' = lru_fresh c"

definition lru_index :: "('k, 'v) lru_cache \<Rightarrow> addr list \<Rightarrow> bool" where
  "lru_index c as \<longleftrightarrow>
     (\<forall>k a. (lru_data c k = Some a) =
            (a \<in> set as \<and> map_option fst (lru_payload (lru_store c) a) = Some k))"

definition lru_wf :: "('k, 'v) lru_cache \<Rightarrow> addr list \<Rightarrow> bool" where
  "lru_wf c as \<longleftrightarrow>
     lru_list c as \<and> lru_index c as \<and>
     (\<forall>a. lru_fresh c \<le> a \<longrightarrow> lru_payload (lru_store c) a = None)"

definition lru_inv :: "('k, 'v) lru_cache \<Rightarrow> bool" where
  "lru_inv c \<longleftrightarrow> (\<exists>as. lru_wf c as \<and> length as \<le> unat (lru_capacity c))"

subsection \<open>LFU\<close>

text \<open>
  \<open>lfu_bucket s bo f as\<close>: the bucket of frequency \<open>f\<close> holds the list \<open>as\<close>; every entry
  on it has frequency \<open>f\<close>; a frequency without a map slot has the empty list; a slot's
  head and tail are \<open>*entry\<close> pointers to the ends of the list (nil pointers for the empty
  list, never the nil interface). \<open>lfu_buckets c B\<close> says so for every frequency, \<open>B\<close>
  giving the list of each. \<open>lfu_wf\<close> adds the index, the unallocated addresses, and that
  the slot of \<open>minFrequency\<close> exists whenever the cache holds an entry; \<open>lfu_inv\<close> adds the
  capacity bound.
\<close>

definition lfu_links :: "(addr \<rightharpoonup> ('k, 'v) lfu_entry) \<Rightarrow> links" where
  "lfu_links s = (\<lambda>a. map_option (\<lambda>e. (lfu_prev e, lfu_next e)) (s a))"

definition lfu_payload :: "(addr \<rightharpoonup> ('k, 'v) lfu_entry) \<Rightarrow> addr \<rightharpoonup> ('k \<times> 'v \<times> 64 word)" where
  "lfu_payload s = (\<lambda>a. map_option (\<lambda>e. (lfu_key e, lfu_value e, lfu_frequency e)) (s a))"

definition lfu_frame :: "('k, 'v) lfu_cache \<Rightarrow> ('k, 'v) lfu_cache \<Rightarrow> bool" where
  "lfu_frame c c' \<longleftrightarrow>
     lfu_payload (lfu_store c') = lfu_payload (lfu_store c) \<and> lfu_data c' = lfu_data c \<and>
     lfu_capacity c' = lfu_capacity c \<and> lfu_fresh c' = lfu_fresh c \<and>
     lfu_minFrequency c' = lfu_minFrequency c"

definition lfu_bucket ::
  "(addr \<rightharpoonup> ('k, 'v) lfu_entry) \<Rightarrow> frequencyNode option \<Rightarrow> 64 word \<Rightarrow> addr list \<Rightarrow> bool" where
  "lfu_bucket s bo f as \<longleftrightarrow>
     distinct as \<and> (\<forall>a\<in>set as. map_option (snd \<circ> snd) (lfu_payload s a) = Some f) \<and>
     (case bo of
        None \<Rightarrow> as = []
      | Some b \<Rightarrow> fn_head b = EntryPtr (hd_or as None) \<and> fn_tail b = EntryPtr (last_or as None) \<and>
          dllseg (lfu_links s) None as None)"

definition lfu_buckets :: "('k, 'v) lfu_cache \<Rightarrow> (64 word \<Rightarrow> addr list) \<Rightarrow> bool" where
  "lfu_buckets c B \<longleftrightarrow> (\<forall>f. lfu_bucket (lfu_store c) (lfu_frequencies c f) f (B f))"

definition lfu_members :: "(64 word \<Rightarrow> addr list) \<Rightarrow> addr set" where
  "lfu_members B = (\<Union>f. set (B f))"

definition lfu_index :: "('k, 'v) lfu_cache \<Rightarrow> (64 word \<Rightarrow> addr list) \<Rightarrow> bool" where
  "lfu_index c B \<longleftrightarrow>
     (\<forall>k a. (lfu_data c k = Some a) =
            (a \<in> lfu_members B \<and> map_option fst (lfu_payload (lfu_store c) a) = Some k))"

definition lfu_wf :: "('k, 'v) lfu_cache \<Rightarrow> (64 word \<Rightarrow> addr list) \<Rightarrow> bool" where
  "lfu_wf c B \<longleftrightarrow>
     lfu_buckets c B \<and> lfu_index c B \<and>
     (\<forall>a. lfu_fresh c \<le> a \<longrightarrow> lfu_payload (lfu_store c) a = None) \<and>
     finite (dom (lfu_data c)) \<and>
     (lfu_data c = Map.empty \<or> lfu_frequencies c (lfu_minFrequency c) \<noteq> None)"

definition lfu_inv :: "('k, 'v) lfu_cache \<Rightarrow> bool" where
  "lfu_inv c \<longleftrightarrow>
     (\<exists>B. lfu_wf c B) \<and> card (dom (lfu_data c)) \<le> unat (lfu_capacity c) \<and>
     0 < lfu_capacity c"

section \<open>Evaluation\<close>

lemmas lru_defs = lru_session_def lru_NewCache_def lru_Add_def lru_Get_def lru_Remove_def
  lru_removeTail_def lru_removeNode_def lru_moveToFront_def lru_addToFront_def
  lru_removeFromList_def lru_modify_def lru_load_def bind_res_def replies_of_def state_of_def

lemmas lfu_defs = lfu_session_def lfu_NewCache_def lfu_Add_def lfu_Get_def lfu_Remove_def
  lfu_evictLeastFrequent_def lfu_incrementFrequency_def lfu_addToFrequency_def
  lfu_removeFromFrequency_def lfu_modify_def lfu_load_def bind_res_def Let_def
  replies_of_def state_of_def

section \<open>The LRU engine keeps its invariant\<close>

subsection \<open>Segments\<close>

text \<open>A segment splits at an append, and does not depend on links outside it.\<close>

lemma hd_or_append: "hd_or (xs @ ys) n = hd_or xs (hd_or ys n)"
  by (cases xs) simp_all

lemma last_or_append: "last_or (xs @ ys) p = last_or ys (last_or xs p)"
  by (induction xs arbitrary: p) simp_all

lemma dllseg_append:
  "dllseg L p (xs @ ys) n = (dllseg L p xs (hd_or ys n) \<and> dllseg L (last_or xs p) ys n)"
  by (induction xs arbitrary: p) (auto simp: hd_or_append)

lemma dllseg_frame: "x \<notin> set as \<Longrightarrow> dllseg (L(x := v)) p as n = dllseg L p as n"
  by (induction as arbitrary: p) auto

lemma dllseg_dom: "dllseg L p as n \<Longrightarrow> a \<in> set as \<Longrightarrow> \<exists>q m. L a = Some (q, m)"
  by (induction as arbitrary: p) auto

subsection \<open>The list operations\<close>

text \<open>\<open>removeFromList\<close> unlinks an address that is on the list and leaves the rest in
  order. The proof goes by what stands before and after the address: nothing or a
  neighbour, on each side. The entry that was unlinked keeps its stale links.\<close>

lemma lru_links_upd: "lru_links (s(a \<mapsto> e)) = (lru_links s)(a \<mapsto> (lru_prev e, lru_next e))"
  by (auto simp: lru_links_def)

lemma lru_links_Some: "lru_links s a = Some (p, n) \<longleftrightarrow> (\<exists>e. s a = Some e \<and> lru_prev e = p \<and> lru_next e = n)"
  by (auto simp: lru_links_def)

lemma lru_payload_upd_links:
  "s a = Some e \<Longrightarrow> lru_key e' = lru_key e \<Longrightarrow> lru_value e' = lru_value e \<Longrightarrow>
   lru_payload (s(a \<mapsto> e')) = lru_payload s"
  by (auto simp: lru_payload_def)

lemma lru_removeFromList_list:
  assumes "lru_list c (xs @ a # ys)"
  shows "\<exists>c'. lru_removeFromList c a = Inr c' \<and> lru_list c' (xs @ ys) \<and> lru_frame c c'"
proof -
  let ?L = "lru_links (lru_store c)"
  from assms have d: "distinct (xs @ a # ys)"
    and seg: "dllseg ?L None (xs @ a # ys) None"
    and hd: "lru_head c = hd_or (xs @ a # ys) None"
    and tl: "lru_tail c = last_or (xs @ a # ys) None"
    by (simp_all add: lru_list_def)
  from seg have sx: "dllseg ?L None xs (Some a)"
    and la: "?L a = Some (last_or xs None, hd_or ys None)"
    and sy: "dllseg ?L (Some a) ys None"
    by (simp_all add: dllseg_append)
  from la obtain e where e: "lru_store c a = Some e" "lru_prev e = last_or xs None"
    "lru_next e = hd_or ys None"
    by (auto simp: lru_links_Some)
  show ?thesis
  proof (cases xs rule: rev_cases)
    case Nil
    show ?thesis
    proof (cases ys)
      case Nil
      with \<open>xs = []\<close> e d hd tl show ?thesis
        by (simp add: lru_removeFromList_def lru_load_def bind_res_def lru_list_def lru_frame_def)
    next
      case (Cons q ys')
      with sy obtain qe where qe: "lru_store c q = Some qe" "lru_prev qe = Some a"
        "lru_next qe = hd_or ys' None"
        by (auto simp: lru_links_Some)
      from d Cons have qn: "q \<notin> set ys'" "q \<noteq> a" by auto
      with \<open>xs = []\<close> Cons e qe sy d hd tl show ?thesis
        by (simp add: lru_removeFromList_def lru_load_def lru_modify_def bind_res_def lru_list_def
            lru_frame_def lru_links_upd dllseg_frame lru_payload_upd_links)
    qed
  next
    case (snoc xs' p)
    with sx obtain pe where pe: "lru_store c p = Some pe" "lru_prev pe = last_or xs' None"
      "lru_next pe = Some a"
      by (auto simp: lru_links_Some dllseg_append)
    from d snoc have pn: "p \<notin> set xs'" "p \<noteq> a" "p \<notin> set ys" by auto
    from sx snoc have sx': "dllseg ?L None xs' (Some p)" by (simp add: dllseg_append)
    show ?thesis
    proof (cases ys)
      case Nil
      with snoc e pe pn sx' d hd tl show ?thesis
        by (simp add: lru_removeFromList_def lru_load_def lru_modify_def bind_res_def lru_list_def
            lru_frame_def lru_links_upd dllseg_frame lru_payload_upd_links dllseg_append
            last_or_append hd_or_append)
    next
      case (Cons q ys')
      with sy obtain qe where qe: "lru_store c q = Some qe" "lru_prev qe = Some a"
        "lru_next qe = hd_or ys' None"
        by (auto simp: lru_links_Some)
      from d Cons snoc have qn: "q \<notin> set ys'" "q \<noteq> a" "q \<noteq> p" "q \<notin> set xs'" "p \<notin> set ys'" by auto
      with snoc Cons e pe pn sx' qe sy d hd tl show ?thesis
        by (simp add: lru_removeFromList_def lru_load_def lru_modify_def bind_res_def lru_list_def
            lru_frame_def lru_links_upd dllseg_frame lru_payload_upd_links dllseg_append
            last_or_append hd_or_append)
    qed
  qed
qed

lemma lru_frame_refl: "lru_frame c c"
  by (simp add: lru_frame_def)

lemma lru_frame_trans: "lru_frame c c1 \<Longrightarrow> lru_frame c1 c2 \<Longrightarrow> lru_frame c c2"
  by (simp add: lru_frame_def)

lemma lru_payload_Some:
  "lru_payload s a = Some (k, v) \<longleftrightarrow> (\<exists>e. s a = Some e \<and> lru_key e = k \<and> lru_value e = v)"
  by (auto simp: lru_payload_def)

lemma lru_payload_None: "lru_payload s a = None \<longleftrightarrow> s a = None"
  by (simp add: lru_payload_def)

lemma lru_frame_store:
  "lru_frame c c' \<Longrightarrow> lru_store c a = Some e \<Longrightarrow>
   \<exists>e'. lru_store c' a = Some e' \<and> lru_key e' = lru_key e \<and> lru_value e' = lru_value e"
proof -
  assume f: "lru_frame c c'" and e: "lru_store c a = Some e"
  then have "lru_payload (lru_store c') a = Some (lru_key e, lru_value e)"
    by (simp add: lru_frame_def lru_payload_def)
  then show ?thesis by (simp add: lru_payload_Some)
qed

text \<open>\<open>addToFront\<close> puts an allocated address that is not on the list in front of it. On an
  empty list the code does not reset the links of the entry, so they have to be nil already.\<close>

lemma lru_addToFront_list:
  assumes "lru_list c as" "a \<notin> set as" "lru_store c a = Some e"
    "as = [] \<longrightarrow> lru_prev e = None \<and> lru_next e = None"
  shows "\<exists>c'. lru_addToFront c a = Inr c' \<and> lru_list c' (a # as) \<and> lru_frame c c'"
proof (cases as)
  case Nil
  with assms show ?thesis
    by (simp add: lru_addToFront_def lru_list_def lru_frame_def lru_links_def)
next
  case (Cons h as')
  with assms obtain he where he: "lru_store c h = Some he" "lru_prev he = None"
    "lru_next he = hd_or as' None"
    by (auto simp: lru_list_def lru_links_Some)
  from assms Cons have n: "h \<noteq> a" "a \<notin> set as'" "h \<notin> set as'" by (auto simp: lru_list_def)
  with assms Cons he show ?thesis
    by (simp add: lru_addToFront_def lru_modify_def bind_res_def lru_list_def lru_frame_def
        lru_links_upd dllseg_frame lru_payload_upd_links)
qed

lemma lru_moveToFront_list:
  assumes "lru_list c (xs @ a # ys)"
  shows "\<exists>c'. lru_moveToFront c a = Inr c' \<and> lru_list c' (a # xs @ ys) \<and> lru_frame c c'"
proof (cases xs)
  case Nil
  with assms show ?thesis
    by (auto simp: lru_moveToFront_def lru_list_def lru_frame_refl)
next
  case (Cons h xs')
  with assms have hd: "lru_head c \<noteq> Some a" by (auto simp: lru_list_def)
  from assms have "a \<in> set (xs @ a # ys)" "dllseg (lru_links (lru_store c)) None (xs @ a # ys) None"
    by (simp_all add: lru_list_def)
  then obtain e where e: "lru_store c a = Some e"
    by (meson dllseg_dom lru_links_Some)
  from lru_removeFromList_list [OF assms] obtain c1 where
    c1: "lru_removeFromList c a = Inr c1" "lru_list c1 (xs @ ys)" "lru_frame c c1" by blast
  from lru_frame_store [OF c1(3) e] obtain e1 where e1: "lru_store c1 a = Some e1" by blast
  from assms have "a \<notin> set (xs @ ys)" by (auto simp: lru_list_def)
  from lru_addToFront_list [OF c1(2) this e1] Cons obtain c2 where
    c2: "lru_addToFront c1 a = Inr c2" "lru_list c2 (a # xs @ ys)" "lru_frame c1 c2" by auto
  with c1 hd show ?thesis
    by (auto simp: lru_moveToFront_def bind_res_def intro: lru_frame_trans)
qed

subsection \<open>The index\<close>

lemma lru_index_frame:
  "lru_index c as \<Longrightarrow> lru_frame c c' \<Longrightarrow> lru_index c' as"
  by (simp add: lru_index_def lru_frame_def)

lemma lru_index_perm:
  "lru_index c as \<Longrightarrow> set as' = set as \<Longrightarrow> lru_index c as'"
  by (simp add: lru_index_def)

lemma lru_wf_frame:
  "lru_wf c as \<Longrightarrow> lru_frame c c' \<Longrightarrow> lru_list c' as' \<Longrightarrow> set as' = set as \<Longrightarrow> lru_wf c' as'"
  by (simp add: lru_wf_def lru_index_def lru_frame_def)

lemma lru_index_mem:
  "lru_index c as \<Longrightarrow> lru_data c k = Some a \<Longrightarrow> a \<in> set as"
  by (simp add: lru_index_def)

lemma lru_index_remove:
  assumes "lru_index c (xs @ a # ys)" "distinct (xs @ a # ys)" "lru_store c a = Some e"
    "lru_frame (c\<lparr>lru_data := (lru_data c)(lru_key e := None)\<rparr>) c'"
  shows "lru_index c' (xs @ ys)"
proof -
  have ka: "map_option fst (lru_payload (lru_store c) a) = Some (lru_key e)"
    using assms(3) by (simp add: lru_payload_def)
  with assms(1) have da: "lru_data c (lru_key e) = Some a" by (simp add: lru_index_def)
  have inj: "b = a" if "b \<in> set (xs @ a # ys)"
    "map_option fst (lru_payload (lru_store c) b) = Some (lru_key e)" for b
  proof -
    from that assms(1) have "lru_data c (lru_key e) = Some b" by (simp add: lru_index_def)
    with da show ?thesis by simp
  qed
  have "lru_index (c\<lparr>lru_data := (lru_data c)(lru_key e := None)\<rparr>) (xs @ ys)"
    unfolding lru_index_def
  proof (intro allI)
    fix k b
    show "(lru_data (c\<lparr>lru_data := (lru_data c)(lru_key e := None)\<rparr>) k = Some b) =
          (b \<in> set (xs @ ys) \<and>
           map_option fst (lru_payload (lru_store (c\<lparr>lru_data := (lru_data c)(lru_key e := None)\<rparr>)) b) = Some k)"
    proof (cases "k = lru_key e")
      case True
      with inj assms(2) show ?thesis by auto
    next
      case False
      with assms(1) ka show ?thesis by (auto simp: lru_index_def)
    qed
  qed
  then show ?thesis using assms(4) by (rule lru_index_frame)
qed

lemma lru_list_allocated:
  "lru_list c as \<Longrightarrow> a \<in> set as \<Longrightarrow> \<exists>e. lru_store c a = Some e"
  by (meson dllseg_dom lru_links_Some lru_list_def)

text \<open>The index has as many keys as the list has addresses: \<open>len(c.data)\<close> is the length of
  the list.\<close>

lemma lru_wf_card:
  assumes "lru_wf c as"
  shows "card (dom (lru_data c)) = length as"
proof -
  let ?f = "\<lambda>a. the (map_option fst (lru_payload (lru_store c) a))"
  from assms have l: "lru_list c as" and i: "lru_index c as" by (simp_all add: lru_wf_def)
  have key: "map_option fst (lru_payload (lru_store c) a) = Some (?f a)" if "a \<in> set as" for a
    using lru_list_allocated [OF l that] by (auto simp: lru_payload_def)
  have "dom (lru_data c) = ?f ` set as"
  proof (rule set_eqI)
    fix k
    show "k \<in> dom (lru_data c) \<longleftrightarrow> k \<in> ?f ` set as"
    proof
      assume "k \<in> dom (lru_data c)"
      then obtain a where "lru_data c k = Some a" by auto
      with i have "a \<in> set as" "map_option fst (lru_payload (lru_store c) a) = Some k"
        by (simp_all add: lru_index_def)
      then show "k \<in> ?f ` set as" by force
    next
      assume "k \<in> ?f ` set as"
      then obtain a where a: "a \<in> set as" "k = ?f a" by auto
      with key [OF a(1)] i have "lru_data c k = Some a" by (simp add: lru_index_def)
      then show "k \<in> dom (lru_data c)" by auto
    qed
  qed
  moreover have "inj_on ?f (set as)"
  proof (rule inj_onI)
    fix a b assume ab: "a \<in> set as" "b \<in> set as" "?f a = ?f b"
    from key [OF ab(1)] i ab(1) have "lru_data c (?f a) = Some a" by (simp add: lru_index_def)
    moreover from key [OF ab(2)] i ab(2) have "lru_data c (?f b) = Some b"
      by (simp add: lru_index_def)
    ultimately show "a = b" using ab(3) by (metis option.inject)
  qed
  moreover from l have "distinct as" by (simp add: lru_list_def)
  ultimately show ?thesis by (simp add: card_image distinct_card)
qed

subsection \<open>The calls of the contract\<close>

lemma lru_Get_wf:
  assumes "lru_wf c as"
  shows "\<exists>c' r as'. lru_Get c k = Inr (c', r) \<and> lru_wf c' as' \<and> length as' = length as \<and>
           lru_frame c c' \<and> (r = None) = (lru_data c k = None)"
proof (cases "lru_data c k")
  case None
  with assms show ?thesis by (auto simp: lru_Get_def lru_frame_refl)
next
  case (Some a)
  from assms have l: "lru_list c as" and i: "lru_index c as" by (simp_all add: lru_wf_def)
  from i Some have "a \<in> set as" by (rule lru_index_mem)
  then obtain xs ys where as: "as = xs @ a # ys" by (auto dest: split_list)
  from lru_moveToFront_list l as obtain c1 where
    c1: "lru_moveToFront c a = Inr c1" "lru_list c1 (a # xs @ ys)" "lru_frame c c1" by blast
  from lru_list_allocated [OF c1(2)] obtain e1 where e1: "lru_store c1 a = Some e1" by auto
  have "lru_wf c1 (a # xs @ ys)"
    using assms c1(3) c1(2) as by (auto intro: lru_wf_frame)
  with Some c1 e1 as show ?thesis
    by (auto simp: lru_Get_def bind_res_def lru_load_def)
qed

lemma lru_Remove_wf:
  assumes "lru_wf c as"
  shows "\<exists>c' as'. lru_Remove c k = Inr (c', lru_data c k \<noteq> None) \<and> lru_wf c' as' \<and>
           length as' \<le> length as \<and> lru_data c' = (lru_data c)(k := None) \<and>
           lru_payload (lru_store c') = lru_payload (lru_store c) \<and>
           lru_capacity c' = lru_capacity c \<and> (lru_data c k = None \<longrightarrow> c' = c)"
proof (cases "lru_data c k")
  case None
  then have "lru_data c = (lru_data c)(k := None)" by (simp add: fun_eq_iff)
  with None assms show ?thesis by (auto simp: lru_Remove_def)
next
  case (Some a)
  from assms have l: "lru_list c as" and i: "lru_index c as"
    and f: "\<forall>a. lru_fresh c \<le> a \<longrightarrow> lru_payload (lru_store c) a = None"
    by (simp_all add: lru_wf_def)
  from i Some have "a \<in> set as" by (rule lru_index_mem)
  then obtain xs ys where as: "as = xs @ a # ys" by (auto dest: split_list)
  from i Some obtain e where e: "lru_store c a = Some e" "lru_key e = k"
    by (auto simp: lru_index_def lru_payload_def)
  from lru_removeFromList_list l as obtain c1 where
    c1: "lru_removeFromList c a = Inr c1" "lru_list c1 (xs @ ys)" "lru_frame c c1" by blast
  let ?c' = "c1\<lparr>lru_data := (lru_data c1)(k := None)\<rparr>"
  from c1(3) have fr: "lru_frame (c\<lparr>lru_data := (lru_data c)(lru_key e := None)\<rparr>) ?c'"
    using e by (simp add: lru_frame_def)
  from l as have d: "distinct (xs @ a # ys)" by (simp add: lru_list_def)
  from i as have "lru_index c (xs @ a # ys)" by simp
  from lru_index_remove [OF this d e(1) fr] have i': "lru_index ?c' (xs @ ys)" .
  from c1(2) have l': "lru_list ?c' (xs @ ys)" by (simp add: lru_list_def)
  from f c1(3) have f': "\<forall>a. lru_fresh ?c' \<le> a \<longrightarrow> lru_payload (lru_store ?c') a = None"
    by (simp add: lru_frame_def)
  from l' i' f' have "lru_wf ?c' (xs @ ys)" by (simp add: lru_wf_def)
  with Some c1 as show ?thesis
    by (auto simp: lru_Remove_def lru_removeNode_def bind_res_def lru_frame_def)
qed

lemma lru_links_upd_same:
  "s a = Some e \<Longrightarrow> lru_prev e' = lru_prev e \<Longrightarrow> lru_next e' = lru_next e \<Longrightarrow>
   lru_links (s(a \<mapsto> e')) = lru_links s"
  by (auto simp: lru_links_def)

lemma lru_Add_present_wf:
  assumes "lru_wf c as" "lru_data c k = Some a"
  shows "\<exists>c' as'. lru_Add c k v = Inr (c', False, True) \<and> lru_wf c' as' \<and>
           length as' = length as \<and> lru_capacity c' = lru_capacity c \<and>
           lru_data c' = lru_data c"
proof -
  from assms have l: "lru_list c as" and i: "lru_index c as"
    and f: "\<forall>a. lru_fresh c \<le> a \<longrightarrow> lru_payload (lru_store c) a = None"
    by (simp_all add: lru_wf_def)
  from i assms(2) have m: "a \<in> set as" by (rule lru_index_mem)
  then obtain xs ys where as: "as = xs @ a # ys" by (auto dest: split_list)
  from lru_list_allocated [OF l m] obtain e where e: "lru_store c a = Some e" by auto
  let ?c1 = "c\<lparr>lru_store := (lru_store c)(a \<mapsto> e\<lparr>lru_value := v\<rparr>)\<rparr>"
  have m1: "lru_modify c a (\<lambda>e. e\<lparr>lru_value := v\<rparr>) = Inr ?c1"
    using e by (simp add: lru_modify_def)
  have l1: "lru_list ?c1 as"
    using l e by (simp add: lru_list_def lru_links_upd_same)
  have k1: "map_option fst (lru_payload (lru_store ?c1) b) = map_option fst (lru_payload (lru_store c) b)" for b
    using e by (simp add: lru_payload_def)
  have i1: "lru_index ?c1 as"
    using i unfolding lru_index_def k1 by simp
  have f1: "\<forall>b. lru_fresh ?c1 \<le> b \<longrightarrow> lru_payload (lru_store ?c1) b = None"
    using f e by (auto simp: lru_payload_def)
  from l1 i1 f1 have w1: "lru_wf ?c1 as" by (simp add: lru_wf_def)
  from lru_moveToFront_list l1 as obtain c2 where
    c2: "lru_moveToFront ?c1 a = Inr c2" "lru_list c2 (a # xs @ ys)" "lru_frame ?c1 c2" by blast
  have "lru_wf c2 (a # xs @ ys)"
    using w1 c2(3) c2(2) as by (auto intro: lru_wf_frame)
  with assms(2) m1 c2 as show ?thesis
    by (auto simp: lru_Add_def bind_res_def lru_frame_def)
qed

lemma lru_Add_absent_wf:
  assumes "lru_wf c as" "length as \<le> unat (lru_capacity c)" "lru_data c k = None"
  shows "\<exists>c' as'. lru_Add c k v = Inr (c', unat (lru_capacity c) \<le> length as, False) \<and>
           lru_wf c' as' \<and> length as' \<le> unat (lru_capacity c') \<and>
           lru_capacity c' = lru_capacity c"
proof -
  from assms have l: "lru_list c as" and i: "lru_index c as"
    and f: "\<forall>a. lru_fresh c \<le> a \<longrightarrow> lru_payload (lru_store c) a = None"
    by (simp_all add: lru_wf_def)
  let ?n = "lru_fresh c"
  let ?e = "\<lparr>lru_key = k, lru_value = v, lru_prev = None, lru_next = None\<rparr>"
  let ?c0 = "c\<lparr>lru_store := (lru_store c)(?n \<mapsto> ?e), lru_fresh := Suc ?n,
                lru_data := (lru_data c)(k \<mapsto> ?n)\<rparr>"
  from f have un: "lru_store c ?n = None" by (simp add: lru_payload_None)
  with lru_list_allocated [OF l] have nn: "?n \<notin> set as" by force
  have l0: "lru_list ?c0 as"
    using l nn by (simp add: lru_list_def lru_links_upd dllseg_frame)
  have e0: "lru_store ?c0 ?n = Some ?e" by simp
  from lru_addToFront_list [OF l0 nn e0] obtain c2 where
    c2: "lru_addToFront ?c0 ?n = Inr c2" "lru_list c2 (?n # as)" "lru_frame ?c0 c2" by auto
  from c2(3) have p2: "lru_payload (lru_store c2) = (lru_payload (lru_store c))(?n \<mapsto> (k, v))"
    and d2: "lru_data c2 = (lru_data c)(k \<mapsto> ?n)" and cap2: "lru_capacity c2 = lru_capacity c"
    and fr2: "lru_fresh c2 = Suc ?n"
    by (auto simp: lru_frame_def lru_payload_def)
  have i2: "lru_index c2 (?n # as)"
    unfolding lru_index_def
  proof (intro allI)
    fix k' b
    show "(lru_data c2 k' = Some b) =
          (b \<in> set (?n # as) \<and> map_option fst (lru_payload (lru_store c2) b) = Some k')"
    proof (cases "k' = k")
      case True
      have "\<not> (b \<in> set as \<and> map_option fst (lru_payload (lru_store c) b) = Some k)"
        using i assms(3) unfolding lru_index_def by (metis option.distinct(1))
      with True nn show ?thesis unfolding p2 d2 by auto
    next
      case False
      with i nn show ?thesis unfolding p2 d2 by (auto simp: lru_index_def)
    qed
  qed
  have f2: "\<forall>b. lru_fresh c2 \<le> b \<longrightarrow> lru_payload (lru_store c2) b = None"
    using f unfolding p2 fr2 by simp
  from c2(2) i2 f2 have w2: "lru_wf c2 (?n # as)" by (simp add: lru_wf_def)
  from lru_wf_card [OF w2] have card2: "card (dom (lru_data c2)) = Suc (length as)" by simp
  show ?thesis
  proof (cases "unat (lru_capacity c) \<le> length as")
    case False
    with assms(3) c2 w2 card2 cap2 show ?thesis
      by (auto simp: lru_Add_def bind_res_def)
  next
    case True
    obtain xs t where xt: "?n # as = xs @ [t]" by (metis list.distinct(1) rev_exhaust)
    with c2(2) have tl: "lru_tail c2 = Some t" by (simp add: lru_list_def last_or_append)
    from lru_list_allocated [OF c2(2)] xt obtain et where et: "lru_store c2 t = Some et"
      by (metis in_set_conv_decomp)
    let ?c2' = "c2\<lparr>lru_data := (lru_data c2)(lru_key et := None)\<rparr>"
    from c2(2) xt have "lru_list ?c2' (xs @ t # [])" by (simp add: lru_list_def)
    from lru_removeFromList_list [OF this] obtain c3 where
      c3: "lru_removeFromList ?c2' t = Inr c3" "lru_list c3 xs" "lru_frame ?c2' c3" by auto
    from c2(2) xt have d: "distinct (xs @ t # [])" by (simp add: lru_list_def)
    from i2 xt have "lru_index c2 (xs @ t # [])" by simp
    from lru_index_remove [OF this d et c3(3)] have i3: "lru_index c3 xs" by simp
    from f2 c3(3) have f3: "\<forall>b. lru_fresh c3 \<le> b \<longrightarrow> lru_payload (lru_store c3) b = None"
      by (simp add: lru_frame_def)
    from c3(2) i3 f3 have w3: "lru_wf c3 xs" by (simp add: lru_wf_def)
    from xt have len: "length xs = length as"
      by (metis length_Cons length_append_singleton nat.inject)
    from c3(3) cap2 have cap3: "lru_capacity c3 = lru_capacity c" by (simp add: lru_frame_def)
    from True assms(3) c2(1) card2 cap2 tl et c3(1) show ?thesis
      using w3 len cap3 assms(2)
      by (auto simp: lru_Add_def bind_res_def lru_removeTail_def lru_load_def)
  qed
qed

section \<open>The LFU engine keeps its invariant when a call returns\<close>

subsection \<open>Unlinking from a bucket\<close>

text \<open>\<open>removeFromFrequency\<close> on an entry of a well-formed bucket: the bucket stays in the
  map (its head is an \<open>*entry\<close> pointer, nil or not, so the comparison with the nil
  interface fails), its list loses the entry, and the entry ends with nil links.\<close>

lemma lfu_links_upd: "lfu_links (s(a \<mapsto> e)) = (lfu_links s)(a \<mapsto> (lfu_prev e, lfu_next e))"
  by (auto simp: lfu_links_def)

lemma lfu_links_Some:
  "lfu_links s a = Some (p, n) \<longleftrightarrow> (\<exists>e. s a = Some e \<and> lfu_prev e = p \<and> lfu_next e = n)"
  by (auto simp: lfu_links_def)

lemma lfu_payload_upd_links:
  "s a = Some e \<Longrightarrow> lfu_key e' = lfu_key e \<Longrightarrow> lfu_value e' = lfu_value e \<Longrightarrow>
   lfu_frequency e' = lfu_frequency e \<Longrightarrow> lfu_payload (s(a \<mapsto> e')) = lfu_payload s"
  by (auto simp: lfu_payload_def)

lemma lfu_removeFromFrequency_local:
  assumes e: "lfu_store c a = Some e"
    and b: "lfu_frequencies c (lfu_frequency e) = Some b"
    and seg: "dllseg (lfu_links (lfu_store c)) None (xs @ a # ys) None"
    and d: "distinct (xs @ a # ys)"
    and hd: "fn_head b = EntryPtr (hd_or (xs @ a # ys) None)"
    and tl: "fn_tail b = EntryPtr (last_or (xs @ a # ys) None)"
  shows "\<exists>c'. lfu_removeFromFrequency c (Some a) = Inr c' \<and>
           (\<exists>b'. lfu_frequencies c' (lfu_frequency e) = Some b' \<and>
              fn_head b' = EntryPtr (hd_or (xs @ ys) None) \<and>
              fn_tail b' = EntryPtr (last_or (xs @ ys) None)) \<and>
           (\<forall>g. g \<noteq> lfu_frequency e \<longrightarrow> lfu_frequencies c' g = lfu_frequencies c g) \<and>
           dllseg (lfu_links (lfu_store c')) None (xs @ ys) None \<and>
           lfu_links (lfu_store c') a = Some (None, None) \<and>
           (\<forall>x. x \<notin> set (xs @ a # ys) \<longrightarrow> lfu_store c' x = lfu_store c x) \<and>
           lfu_frame c c'"
proof -
  let ?L = "lfu_links (lfu_store c)"
  from seg have sx: "dllseg ?L None xs (Some a)"
    and la: "?L a = Some (last_or xs None, hd_or ys None)"
    and sy: "dllseg ?L (Some a) ys None"
    by (simp_all add: dllseg_append)
  from la e have ea: "lfu_prev e = last_or xs None" "lfu_next e = hd_or ys None"
    by (auto simp: lfu_links_Some)
  show ?thesis
  proof (cases xs rule: rev_cases)
    case Nil
    show ?thesis
    proof (cases ys)
      case Nil
      with \<open>xs = []\<close> e ea b d hd tl show ?thesis
        by (simp add: lfu_removeFromFrequency_def lfu_load_def lfu_modify_def bind_res_def
            lfu_frame_def lfu_links_upd lfu_payload_upd_links)
    next
      case (Cons q ys')
      with sy obtain qe where qe: "lfu_store c q = Some qe" "lfu_prev qe = Some a"
        "lfu_next qe = hd_or ys' None"
        by (auto simp: lfu_links_Some)
      from d Cons have qn: "q \<notin> set ys'" "q \<noteq> a" "a \<notin> set ys'" by auto
      with \<open>xs = []\<close> Cons e ea b qe sy d hd tl show ?thesis
        by (simp add: lfu_removeFromFrequency_def lfu_load_def lfu_modify_def bind_res_def
            lfu_frame_def lfu_links_upd dllseg_frame lfu_payload_upd_links)
    qed
  next
    case (snoc xs' p)
    with sx obtain pe where pe: "lfu_store c p = Some pe" "lfu_prev pe = last_or xs' None"
      "lfu_next pe = Some a"
      by (auto simp: lfu_links_Some dllseg_append)
    from d snoc have pn: "p \<notin> set xs'" "p \<noteq> a" "p \<notin> set ys" "a \<notin> set xs'" by auto
    from sx snoc have sx': "dllseg ?L None xs' (Some p)" by (simp add: dllseg_append)
    show ?thesis
    proof (cases ys)
      case Nil
      with snoc e ea b pe pn sx' d hd tl show ?thesis
        by (simp add: lfu_removeFromFrequency_def lfu_load_def lfu_modify_def bind_res_def
            lfu_frame_def lfu_links_upd dllseg_frame lfu_payload_upd_links dllseg_append
            last_or_append hd_or_append)
    next
      case (Cons q ys')
      with sy obtain qe where qe: "lfu_store c q = Some qe" "lfu_prev qe = Some a"
        "lfu_next qe = hd_or ys' None"
        by (auto simp: lfu_links_Some)
      from d Cons snoc have qn: "q \<notin> set ys'" "q \<noteq> a" "q \<noteq> p" "q \<notin> set xs'" "p \<notin> set ys'"
        "a \<notin> set ys'" by auto
      with snoc Cons e ea b pe pn sx' qe sy d hd tl show ?thesis
        by (simp add: lfu_removeFromFrequency_def lfu_load_def lfu_modify_def bind_res_def
            lfu_frame_def lfu_links_upd dllseg_frame lfu_payload_upd_links dllseg_append
            last_or_append hd_or_append)
    qed
  qed
qed

subsection \<open>All buckets\<close>

lemma dllseg_cong: "(\<forall>x\<in>set as. L' x = L x) \<Longrightarrow> dllseg L' p as n = dllseg L p as n"
  by (induction as arbitrary: p) auto

lemma lfu_bucket_frame:
  assumes "lfu_bucket s bo g as" "\<forall>x\<in>set as. s' x = s x"
  shows "lfu_bucket s' bo g as"
proof -
  from assms(2) have "\<forall>x\<in>set as. lfu_links s' x = lfu_links s x" by (simp add: lfu_links_def)
  then have "dllseg (lfu_links s') None as None = dllseg (lfu_links s) None as None"
    by (rule dllseg_cong)
  moreover from assms(2) have "\<forall>x\<in>set as. lfu_payload s' x = lfu_payload s x"
    by (simp add: lfu_payload_def)
  ultimately show ?thesis using assms(1) by (auto simp: lfu_bucket_def split: option.splits)
qed

lemma lfu_bucket_freq:
  "lfu_bucket s bo f as \<Longrightarrow> a \<in> set as \<Longrightarrow> \<exists>e. s a = Some e \<and> lfu_frequency e = f"
  by (auto simp: lfu_bucket_def lfu_payload_def)

lemma lfu_buckets_unique:
  assumes "lfu_buckets c B" "a \<in> set (B f)" "a \<in> set (B g)"
  shows "f = g"
proof -
  from assms(1) have "lfu_bucket (lfu_store c) (lfu_frequencies c f) f (B f)"
    and "lfu_bucket (lfu_store c) (lfu_frequencies c g) g (B g)"
    by (simp_all add: lfu_buckets_def)
  from lfu_bucket_freq [OF this(1) assms(2)] lfu_bucket_freq [OF this(2) assms(3)]
  show ?thesis by auto
qed

lemma lfu_members_remove:
  assumes "lfu_buckets c B" "a \<in> set (B f)"
  shows "lfu_members (B(f := remove1 a (B f))) = lfu_members B - {a}"
proof -
  from assms have d: "distinct (B f)" by (simp add: lfu_buckets_def lfu_bucket_def)
  have o: "a \<notin> set (B g)" if "g \<noteq> f" for g
    using lfu_buckets_unique [OF assms(1) assms(2)] that by blast
  show ?thesis
  proof (rule set_eqI)
    fix x
    show "x \<in> lfu_members (B(f := remove1 a (B f))) \<longleftrightarrow> x \<in> lfu_members B - {a}"
    proof
      assume "x \<in> lfu_members (B(f := remove1 a (B f)))"
      then obtain g where g: "x \<in> set ((B(f := remove1 a (B f))) g)"
        by (auto simp: lfu_members_def)
      show "x \<in> lfu_members B - {a}"
      proof (cases "g = f")
        case True
        with g d have "x \<in> set (B f)" "x \<noteq> a" by auto
        then show ?thesis by (auto simp: lfu_members_def)
      next
        case False
        with g o [OF False] have "x \<in> set (B g)" "x \<noteq> a" by auto
        then show ?thesis by (auto simp: lfu_members_def)
      qed
    next
      assume "x \<in> lfu_members B - {a}"
      then obtain g where g: "x \<in> set (B g)" "x \<noteq> a" by (auto simp: lfu_members_def)
      then have "x \<in> set ((B(f := remove1 a (B f))) g)" by auto
      then show "x \<in> lfu_members (B(f := remove1 a (B f)))"
        unfolding lfu_members_def by blast
    qed
  qed
qed

lemma lfu_members_add: "lfu_members (B(f := a # B f)) = insert a (lfu_members B)"
  by (auto simp: lfu_members_def split: if_splits)

lemma lfu_removeFromFrequency_buckets:
  assumes B: "lfu_buckets c B" and a: "a \<in> set (B f)"
  shows "\<exists>c'. lfu_removeFromFrequency c (Some a) = Inr c' \<and>
           lfu_buckets c' (B(f := remove1 a (B f))) \<and>
           lfu_links (lfu_store c') a = Some (None, None) \<and> lfu_frame c c' \<and>
           (\<forall>g. (lfu_frequencies c' g = None) = (lfu_frequencies c g = None))"
proof -
  from B have bf: "lfu_bucket (lfu_store c) (lfu_frequencies c f) f (B f)"
    by (simp add: lfu_buckets_def)
  from lfu_bucket_freq [OF bf a] obtain e where e: "lfu_store c a = Some e" "lfu_frequency e = f"
    by auto
  from a bf obtain b where b: "lfu_frequencies c f = Some b"
    by (cases "lfu_frequencies c f") (auto simp: lfu_bucket_def)
  from a obtain xs ys where xy: "B f = xs @ a # ys" "a \<notin> set xs"
    by (auto dest: split_list_first)
  from bf b xy have seg: "dllseg (lfu_links (lfu_store c)) None (xs @ a # ys) None"
    and d: "distinct (xs @ a # ys)"
    and hd: "fn_head b = EntryPtr (hd_or (xs @ a # ys) None)"
    and tl: "fn_tail b = EntryPtr (last_or (xs @ a # ys) None)"
    by (simp_all add: lfu_bucket_def)
  from b e have b': "lfu_frequencies c (lfu_frequency e) = Some b" by simp
  from lfu_removeFromFrequency_local [OF e(1) b' seg d hd tl] e(2) obtain c' b1 where
    c': "lfu_removeFromFrequency c (Some a) = Inr c'"
    and b1: "lfu_frequencies c' f = Some b1" "fn_head b1 = EntryPtr (hd_or (xs @ ys) None)"
      "fn_tail b1 = EntryPtr (last_or (xs @ ys) None)"
    and oth: "\<forall>g. g \<noteq> f \<longrightarrow> lfu_frequencies c' g = lfu_frequencies c g"
    and seg': "dllseg (lfu_links (lfu_store c')) None (xs @ ys) None"
    and la: "lfu_links (lfu_store c') a = Some (None, None)"
    and st: "\<forall>x. x \<notin> set (xs @ a # ys) \<longrightarrow> lfu_store c' x = lfu_store c x"
    and fr: "lfu_frame c c'"
    by auto
  from fr have pl: "lfu_payload (lfu_store c') = lfu_payload (lfu_store c)"
    by (simp add: lfu_frame_def)
  from xy have r: "remove1 a (B f) = xs @ ys" by (simp add: remove1_append)
  have "lfu_bucket (lfu_store c') (lfu_frequencies c' g) g ((B(f := remove1 a (B f))) g)" for g
  proof (cases "g = f")
    case True
    from bf xy have "\<forall>x\<in>set (xs @ ys). map_option (snd \<circ> snd) (lfu_payload (lfu_store c) x) = Some f"
      by (auto simp: lfu_bucket_def)
    with True r b1 seg' d pl show ?thesis by (auto simp: lfu_bucket_def)
  next
    case False
    from B have bg: "lfu_bucket (lfu_store c) (lfu_frequencies c g) g (B g)"
      by (simp add: lfu_buckets_def)
    have "\<forall>x\<in>set (B g). lfu_store c' x = lfu_store c x"
    proof
      fix x assume "x \<in> set (B g)"
      with False lfu_buckets_unique [OF B] have "x \<notin> set (B f)" by blast
      with st xy show "lfu_store c' x = lfu_store c x" by simp
    qed
    from lfu_bucket_frame [OF bg this] False oth show ?thesis by simp
  qed
  then have "lfu_buckets c' (B(f := remove1 a (B f)))" by (simp add: lfu_buckets_def)
  moreover have "(lfu_frequencies c' g = None) = (lfu_frequencies c g = None)" for g
    using b b1 oth by (cases "g = f") simp_all
  ultimately show ?thesis using c' la fr by blast
qed

text \<open>\<open>addToFrequency\<close>, when it returns: it does so for a frequency without a slot and
  for a slot whose list is not empty; on a slot with an empty list it panics.\<close>

lemma lfu_addToFrequency_buckets:
  assumes B: "lfu_buckets c B" and e: "lfu_store c a = Some e" "lfu_prev e = None"
    "lfu_next e = None" "lfu_frequency e = f"
    and na: "a \<notin> lfu_members B"
    and r: "lfu_addToFrequency c a f = Inr c'"
  shows "lfu_buckets c' (B(f := a # B f)) \<and> lfu_frame c c' \<and> lfu_frequencies c' f \<noteq> None \<and>
         (\<forall>g. lfu_frequencies c g \<noteq> None \<longrightarrow> lfu_frequencies c' g \<noteq> None)"
proof -
  from B have bf: "lfu_bucket (lfu_store c) (lfu_frequencies c f) f (B f)"
    by (simp add: lfu_buckets_def)
  from na have naf: "a \<notin> set (B g)" for g by (auto simp: lfu_members_def)
  have pa: "map_option (snd \<circ> snd) (lfu_payload (lfu_store c) a) = Some f"
    using e by (simp add: lfu_payload_def)
  have goal: "lfu_buckets c' (B(f := a # B f))"
    if fb: "lfu_bucket (lfu_store c') (lfu_frequencies c' f) f (a # B f)"
      and oth: "\<forall>g. g \<noteq> f \<longrightarrow> lfu_frequencies c' g = lfu_frequencies c g"
      and st: "\<forall>x. x \<notin> set (a # B f) \<longrightarrow> lfu_store c' x = lfu_store c x"
  proof -
    have "lfu_bucket (lfu_store c') (lfu_frequencies c' g) g ((B(f := a # B f)) g)" for g
    proof (cases "g = f")
      case True
      with fb show ?thesis by simp
    next
      case False
      from B have bg: "lfu_bucket (lfu_store c) (lfu_frequencies c g) g (B g)"
        by (simp add: lfu_buckets_def)
      have "\<forall>x\<in>set (B g). lfu_store c' x = lfu_store c x"
      proof
        fix x assume x: "x \<in> set (B g)"
        with False lfu_buckets_unique [OF B] have "x \<notin> set (B f)" by blast
        moreover from x naf have "x \<noteq> a" by auto
        ultimately show "lfu_store c' x = lfu_store c x" using st by simp
      qed
      from lfu_bucket_frame [OF bg this] False oth show ?thesis by simp
    qed
    then show ?thesis by (simp add: lfu_buckets_def)
  qed
  show ?thesis
  proof (cases "lfu_frequencies c f")
    case None
    with bf have bn: "B f = []" by (simp add: lfu_bucket_def)
    from None r have c': "c' = c\<lparr>lfu_frequencies := (lfu_frequencies c)(f \<mapsto>
        \<lparr>fn_freq = f, fn_head = EntryPtr (Some a), fn_tail = EntryPtr (Some a)\<rparr>)\<rparr>"
      by (simp add: lfu_addToFrequency_def)
    have "lfu_bucket (lfu_store c') (lfu_frequencies c' f) f (a # B f)"
      using bn e pa unfolding c' by (simp add: lfu_bucket_def lfu_links_def)
    from goal [OF this] have "lfu_buckets c' (B(f := a # B f))" unfolding c' by simp
    then show ?thesis unfolding c' by (simp add: lfu_frame_def)
  next
    case (Some b)
    with bf have hb: "fn_head b = EntryPtr (hd_or (B f) None)"
      and tb: "fn_tail b = EntryPtr (last_or (B f) None)"
      and seg: "dllseg (lfu_links (lfu_store c)) None (B f) None"
      and d: "distinct (B f)"
      and fq: "\<forall>x\<in>set (B f). map_option (snd \<circ> snd) (lfu_payload (lfu_store c) x) = Some f"
      by (simp_all add: lfu_bucket_def)
    show ?thesis
    proof (cases "B f")
      case Nil
      with Some hb e r show ?thesis
        by (simp add: lfu_addToFrequency_def lfu_modify_def bind_res_def)
    next
      case (Cons h bs)
      with seg obtain he where he: "lfu_store c h = Some he" "lfu_prev he = None"
        "lfu_next he = hd_or bs None"
        by (auto simp: lfu_links_Some)
      from Cons naf [of f] d have n: "h \<noteq> a" "a \<notin> set bs" "h \<notin> set bs" "distinct bs" by auto
      let ?s' = "(lfu_store c)(a \<mapsto> e\<lparr>lfu_next := Some h\<rparr>, h \<mapsto> he\<lparr>lfu_prev := Some a\<rparr>)"
      from Some hb Cons e he n r have c': "c' = c\<lparr>lfu_store := ?s',
          lfu_frequencies := (lfu_frequencies c)(f \<mapsto> b\<lparr>fn_head := EntryPtr (Some a)\<rparr>)\<rparr>"
        by (simp add: lfu_addToFrequency_def lfu_modify_def bind_res_def)
      have pl: "lfu_payload ?s' = lfu_payload (lfu_store c)"
        using e he by (auto simp: lfu_payload_def)
      have sg: "dllseg (lfu_links ?s') (Some h) bs None"
        using seg Cons n by (simp add: lfu_links_upd dllseg_frame)
      have "lfu_bucket (lfu_store c') (lfu_frequencies c' f) f (a # B f)"
        unfolding c' using Cons n tb fq pa e he sg
        by (simp add: lfu_bucket_def pl lfu_links_upd)
      from goal [OF this] Cons have "lfu_buckets c' (B(f := a # B f))" unfolding c' by simp
      then show ?thesis unfolding c' using pl by (simp add: lfu_frame_def)
    qed
  qed
qed

subsection \<open>Promotion, eviction and the calls of the contract\<close>

lemma lfu_members_iff: "a \<in> lfu_members B \<longleftrightarrow> (\<exists>f. a \<in> set (B f))"
  by (auto simp: lfu_members_def)

lemma lfu_incrementFrequency_wf:
  assumes wf: "lfu_wf c B" and a: "a \<in> lfu_members B"
    and r: "lfu_incrementFrequency c a = Inr c'"
  shows "\<exists>B'. lfu_wf c' B' \<and> lfu_data c' = lfu_data c \<and> lfu_capacity c' = lfu_capacity c \<and>
           (\<exists>e'. lfu_store c' a = Some e')"
proof -
  from wf have B: "lfu_buckets c B" and i: "lfu_index c B"
    and fr: "\<forall>a. lfu_fresh c \<le> a \<longrightarrow> lfu_payload (lfu_store c) a = None"
    and fin: "finite (dom (lfu_data c))"
    and mn: "lfu_data c = Map.empty \<or> lfu_frequencies c (lfu_minFrequency c) \<noteq> None"
    by (simp_all add: lfu_wf_def)
  from a obtain f where af: "a \<in> set (B f)" by (auto simp: lfu_members_iff)
  from B have bf: "lfu_bucket (lfu_store c) (lfu_frequencies c f) f (B f)"
    by (simp add: lfu_buckets_def)
  from lfu_bucket_freq [OF bf af] obtain e where e: "lfu_store c a = Some e" "lfu_frequency e = f"
    by auto
  from af bf have ff: "lfu_frequencies c f \<noteq> None"
    by (cases "lfu_frequencies c f") (auto simp: lfu_bucket_def)
  let ?B1 = "B(f := remove1 a (B f))"
  from lfu_removeFromFrequency_buckets [OF B af] obtain c1 where
    c1: "lfu_removeFromFrequency c (Some a) = Inr c1" and B1: "lfu_buckets c1 ?B1"
    and l1: "lfu_links (lfu_store c1) a = Some (None, None)" and f1: "lfu_frame c c1"
    and k1: "\<forall>g. (lfu_frequencies c1 g = None) = (lfu_frequencies c g = None)"
    by blast
  from l1 obtain e1 where e1: "lfu_store c1 a = Some e1" "lfu_prev e1 = None" "lfu_next e1 = None"
    by (auto simp: lfu_links_Some)
  have m1: "lfu_members ?B1 = lfu_members B - {a}" by (rule lfu_members_remove [OF B af])
  let ?e2 = "e1\<lparr>lfu_frequency := f + 1\<rparr>"
  let ?c2 = "c1\<lparr>lfu_store := (lfu_store c1)(a \<mapsto> ?e2)\<rparr>"
  have B2: "lfu_buckets ?c2 ?B1"
    unfolding lfu_buckets_def
  proof
    fix g
    from B1 have bg: "lfu_bucket (lfu_store c1) (lfu_frequencies c1 g) g (?B1 g)"
      by (simp add: lfu_buckets_def)
    have "\<forall>x\<in>set (?B1 g). lfu_store ?c2 x = lfu_store c1 x"
    proof
      fix x assume "x \<in> set (?B1 g)"
      then have "x \<in> lfu_members ?B1" unfolding lfu_members_def by blast
      with m1 show "lfu_store ?c2 x = lfu_store c1 x" by simp
    qed
    from lfu_bucket_frame [where s' = "lfu_store ?c2", OF bg this]
    show "lfu_bucket (lfu_store ?c2) (lfu_frequencies ?c2 g) g (?B1 g)" by simp
  qed
  have na: "a \<notin> lfu_members ?B1" using m1 by simp
  have e2: "lfu_store ?c2 a = Some ?e2" "lfu_prev ?e2 = None" "lfu_next ?e2 = None"
    "lfu_frequency ?e2 = f + 1"
    using e1 by simp_all
  from r e c1 e1 obtain c3 where c3: "lfu_addToFrequency ?c2 a (f + 1) = Inr c3"
    and c': "c' = (if f = lfu_minFrequency c3 \<and> lfu_frequencies c3 f = None
                   then c3\<lparr>lfu_minFrequency := f + 1\<rparr> else c3)"
    by (auto simp: lfu_incrementFrequency_def lfu_load_def lfu_modify_def bind_res_def
        split: sum.splits)
  from lfu_addToFrequency_buckets [OF B2 e2 na c3]
  have B3: "lfu_buckets c3 (?B1(f + 1 := a # ?B1 (f + 1)))" and f3: "lfu_frame ?c2 c3"
    and k3: "\<forall>g. lfu_frequencies ?c2 g \<noteq> None \<longrightarrow> lfu_frequencies c3 g \<noteq> None"
    by simp_all
  let ?B3 = "?B1(f + 1 := a # ?B1 (f + 1))"
  from k1 k3 have k: "\<forall>g. lfu_frequencies c g \<noteq> None \<longrightarrow> lfu_frequencies c3 g \<noteq> None"
    by simp
  with ff c' have c'3: "c' = c3" by simp
  have "lfu_members ?B3 = insert a (lfu_members ?B1)" by (rule lfu_members_add)
  with m1 a have m3: "lfu_members ?B3 = lfu_members B" by (simp only: insert_Diff_single insert_absorb)
  from f1 f3 have d3: "lfu_data c3 = lfu_data c" and cap3: "lfu_capacity c3 = lfu_capacity c"
    and fr3: "lfu_fresh c3 = lfu_fresh c" and mn3: "lfu_minFrequency c3 = lfu_minFrequency c"
    by (simp_all add: lfu_frame_def)
  from f1 have P1: "lfu_payload (lfu_store c1) = lfu_payload (lfu_store c)"
    by (simp add: lfu_frame_def)
  have "lfu_payload (lfu_store c1) a = Some (lfu_key e1, lfu_value e1, lfu_frequency e1)"
    using e1 by (simp add: lfu_payload_def)
  with P1 have Pa: "lfu_payload (lfu_store c) a = Some (lfu_key e1, lfu_value e1, lfu_frequency e1)"
    by simp
  from f3 have "lfu_payload (lfu_store c3) = lfu_payload ((lfu_store c1)(a \<mapsto> ?e2))"
    by (simp add: lfu_frame_def)
  also have "\<dots> = (lfu_payload (lfu_store c1))(a \<mapsto> (lfu_key e1, lfu_value e1, f + 1))"
    by (auto simp: lfu_payload_def)
  finally have P3: "lfu_payload (lfu_store c3) =
      (lfu_payload (lfu_store c))(a \<mapsto> (lfu_key e1, lfu_value e1, f + 1))"
    using P1 by simp
  have p3: "map_option fst (lfu_payload (lfu_store c3) x) =
      map_option fst (lfu_payload (lfu_store c) x)"
    and p3n: "(lfu_payload (lfu_store c3) x = None) = (lfu_payload (lfu_store c) x = None)" for x
    using Pa unfolding P3 by (cases "x = a"; simp)+
  have i3: "lfu_index c3 ?B3"
    using i unfolding lfu_index_def m3 d3 p3 by simp
  from mn k have mn': "lfu_data c3 = Map.empty \<or> lfu_frequencies c3 (lfu_minFrequency c3) \<noteq> None"
    unfolding d3 mn3 by blast
  have "lfu_wf c3 ?B3"
    unfolding lfu_wf_def using B3 i3 fr fin mn' by (simp add: d3 fr3 p3n)
  moreover have "\<exists>e'. lfu_store c3 a = Some e'"
    using p3n [of a] Pa by (auto simp: lfu_payload_def)
  ultimately show ?thesis using c'3 d3 cap3 by blast
qed

lemma lfu_bucket_cong:
  assumes "lfu_bucket s bo g as"
    "\<forall>x\<in>set as. lfu_links s' x = lfu_links s x \<and>
       map_option (snd \<circ> snd) (lfu_payload s' x) = map_option (snd \<circ> snd) (lfu_payload s x)"
  shows "lfu_bucket s' bo g as"
proof -
  from assms(2) have "dllseg (lfu_links s') None as None = dllseg (lfu_links s) None as None"
    by (intro dllseg_cong) simp
  with assms show ?thesis by (auto simp: lfu_bucket_def split: option.splits)
qed

lemma lfu_buckets_data [simp]: "lfu_buckets (c\<lparr>lfu_data := d\<rparr>) B = lfu_buckets c B"
  by (simp add: lfu_buckets_def)

lemma lfu_buckets_allocated:
  "lfu_buckets c B \<Longrightarrow> a \<in> lfu_members B \<Longrightarrow> \<exists>e. lfu_store c a = Some e"
  by (metis lfu_bucket_freq lfu_buckets_def lfu_members_iff)

lemma lfu_unlink_wf:
  assumes wf: "lfu_wf c B" and a: "a \<in> lfu_members B" and e: "lfu_store c a = Some e"
  shows "\<exists>c1. lfu_removeFromFrequency c (Some a) = Inr c1 \<and>
           (\<exists>B'. lfu_wf (c1\<lparr>lfu_data := (lfu_data c1)(lfu_key e := None)\<rparr>) B') \<and>
           lfu_frame c c1 \<and> lfu_data c (lfu_key e) = Some a"
proof -
  from wf have B: "lfu_buckets c B" and i: "lfu_index c B"
    and fr: "\<forall>a. lfu_fresh c \<le> a \<longrightarrow> lfu_payload (lfu_store c) a = None"
    and fin: "finite (dom (lfu_data c))"
    and mn: "lfu_data c = Map.empty \<or> lfu_frequencies c (lfu_minFrequency c) \<noteq> None"
    by (simp_all add: lfu_wf_def)
  from a obtain f where af: "a \<in> set (B f)" by (auto simp: lfu_members_iff)
  let ?B1 = "B(f := remove1 a (B f))"
  let ?k = "lfu_key e"
  from lfu_removeFromFrequency_buckets [OF B af] obtain c1 where
    c1: "lfu_removeFromFrequency c (Some a) = Inr c1" and B1: "lfu_buckets c1 ?B1"
    and f1: "lfu_frame c c1"
    and k1: "\<forall>g. (lfu_frequencies c1 g = None) = (lfu_frequencies c g = None)"
    by blast
  have m1: "lfu_members ?B1 = lfu_members B - {a}" by (rule lfu_members_remove [OF B af])
  from f1 have P1: "lfu_payload (lfu_store c1) = lfu_payload (lfu_store c)"
    and d1: "lfu_data c1 = lfu_data c" and fr1: "lfu_fresh c1 = lfu_fresh c"
    and mn1: "lfu_minFrequency c1 = lfu_minFrequency c"
    by (simp_all add: lfu_frame_def)
  have ka: "map_option fst (lfu_payload (lfu_store c) a) = Some ?k"
    using e by (simp add: lfu_payload_def)
  with i a have da: "lfu_data c ?k = Some a" by (simp add: lfu_index_def)
  let ?c' = "c1\<lparr>lfu_data := (lfu_data c1)(?k := None)\<rparr>"
  have i': "lfu_index ?c' ?B1"
    unfolding lfu_index_def
  proof (intro allI)
    fix k' b
    show "(lfu_data ?c' k' = Some b) =
          (b \<in> lfu_members ?B1 \<and> map_option fst (lfu_payload (lfu_store ?c') b) = Some k')"
    proof (cases "k' = ?k")
      case True
      have "b = a" if "b \<in> lfu_members B" "map_option fst (lfu_payload (lfu_store c) b) = Some ?k"
      proof -
        from that i have "lfu_data c ?k = Some b" by (simp add: lfu_index_def)
        with da show ?thesis by simp
      qed
      with True show ?thesis by (auto simp: m1 P1 d1)
    next
      case False
      with i ka show ?thesis by (auto simp: m1 P1 d1 lfu_index_def)
    qed
  qed
  have mn': "lfu_data ?c' = Map.empty \<or> lfu_frequencies ?c' (lfu_minFrequency ?c') \<noteq> None"
    using mn da k1 by (auto simp: mn1 fun_eq_iff)
  have "lfu_wf ?c' ?B1"
    unfolding lfu_wf_def using B1 i' fr fin mn' by (simp add: P1 d1 fr1)
  with c1 f1 da show ?thesis by blast
qed

lemma lfu_Get_wf:
  assumes "lfu_wf c B" "lfu_Get c k = Inr (c', r)"
  shows "(\<exists>B'. lfu_wf c' B') \<and> lfu_data c' = lfu_data c \<and> lfu_capacity c' = lfu_capacity c"
proof (cases "lfu_data c k")
  case None
  with assms show ?thesis by (auto simp: lfu_Get_def)
next
  case (Some a)
  from assms(1) have i: "lfu_index c B" by (simp add: lfu_wf_def)
  with Some have a: "a \<in> lfu_members B" by (simp add: lfu_index_def)
  from assms(2) Some obtain c1 where c1: "lfu_incrementFrequency c a = Inr c1"
    by (auto simp: lfu_Get_def bind_res_def split: sum.splits)
  from lfu_incrementFrequency_wf [OF assms(1) a c1] obtain B' e' where
    w: "lfu_wf c1 B'" "lfu_data c1 = lfu_data c" "lfu_capacity c1 = lfu_capacity c"
      "lfu_store c1 a = Some e'" by blast
  with assms(2) Some c1 have "c' = c1"
    by (simp add: lfu_Get_def bind_res_def lfu_load_def)
  with w show ?thesis by blast
qed

lemma lfu_Remove_wf:
  assumes "lfu_wf c B"
  shows "\<exists>c'. lfu_Remove c k = Inr (c', lfu_data c k \<noteq> None) \<and> (\<exists>B'. lfu_wf c' B') \<and>
           lfu_data c' = (lfu_data c)(k := None) \<and> lfu_capacity c' = lfu_capacity c \<and>
           lfu_payload (lfu_store c') = lfu_payload (lfu_store c) \<and>
           (lfu_data c k = None \<longrightarrow> c' = c)"
proof (cases "lfu_data c k")
  case None
  then have "lfu_data c = (lfu_data c)(k := None)" by (simp add: fun_eq_iff)
  with None assms show ?thesis by (auto simp: lfu_Remove_def)
next
  case (Some a)
  from assms have i: "lfu_index c B" and B: "lfu_buckets c B" by (simp_all add: lfu_wf_def)
  from i Some have a: "a \<in> lfu_members B" by (simp add: lfu_index_def)
  from i Some obtain e where e: "lfu_store c a = Some e" "lfu_key e = k"
    by (auto simp: lfu_index_def lfu_payload_def)
  from lfu_unlink_wf [OF assms a e(1)] e(2) obtain c1 B' where
    c1: "lfu_removeFromFrequency c (Some a) = Inr c1"
      "lfu_wf (c1\<lparr>lfu_data := (lfu_data c1)(k := None)\<rparr>) B'" "lfu_frame c c1"
    by auto
  with Some show ?thesis
    by (auto simp: lfu_Remove_def bind_res_def lfu_frame_def)
qed

lemma card_dom_upd_new:
  "finite (dom m) \<Longrightarrow> m k = None \<Longrightarrow> card (dom (m(k \<mapsto> x))) = Suc (card (dom m))"
  by (simp add: domIff)

lemma card_dom_del:
  "finite (dom m) \<Longrightarrow> m k \<noteq> None \<Longrightarrow> card (dom (m(k := None))) = card (dom m) - 1"
  by (simp add: domIff)

lemma lfu_evictLeastFrequent_wf:
  assumes wf: "lfu_wf c B" and ne: "lfu_data c \<noteq> Map.empty"
    and r: "lfu_evictLeastFrequent c = Inr c1"
  shows "\<exists>k0. (\<exists>B1. lfu_wf c1 B1) \<and> lfu_data c k0 \<noteq> None \<and>
           lfu_data c1 = (lfu_data c)(k0 := None) \<and> lfu_capacity c1 = lfu_capacity c"
proof -
  from wf have B: "lfu_buckets c B"
    and fin: "finite (dom (lfu_data c))"
    and mn: "lfu_data c = Map.empty \<or> lfu_frequencies c (lfu_minFrequency c) \<noteq> None"
    by (simp_all add: lfu_wf_def)
  let ?m = "lfu_minFrequency c"
  from ne have "dom (lfu_data c) \<noteq> {}" by simp
  with fin have cd: "card (dom (lfu_data c)) \<noteq> 0" by simp
  from mn ne obtain b where b: "lfu_frequencies c ?m = Some b" by auto
  from B b have tl: "fn_tail b = EntryPtr (last_or (B ?m) None)"
    by (auto simp: lfu_buckets_def lfu_bucket_def split: option.splits)
  show ?thesis
  proof (cases "B ?m" rule: rev_cases)
    case Nil
    with r cd b tl show ?thesis
      by (simp add: lfu_evictLeastFrequent_def lfu_removeFromFrequency_def bind_res_def)
  next
    case (snoc xs t)
    with tl have tl': "fn_tail b = EntryPtr (Some t)" by (simp add: last_or_append)
    from snoc have "t \<in> set (B ?m)" by simp
    then have t: "t \<in> lfu_members B" unfolding lfu_members_iff by blast
    from lfu_buckets_allocated [OF B t] obtain e where e: "lfu_store c t = Some e" by auto
    from lfu_unlink_wf [OF wf t e] obtain c' B' where
      c': "lfu_removeFromFrequency c (Some t) = Inr c'"
        "lfu_wf (c'\<lparr>lfu_data := (lfu_data c')(lfu_key e := None)\<rparr>) B'"
        "lfu_frame c c'" "lfu_data c (lfu_key e) = Some t"
      by blast
    from c'(3) e obtain e' where e': "lfu_store c' t = Some e'" "lfu_key e' = lfu_key e"
      by (auto simp: lfu_frame_def lfu_payload_def fun_eq_iff dest!: spec [of _ t])
    from r cd b tl' c'(1) e' have "c1 = c'\<lparr>lfu_data := (lfu_data c')(lfu_key e := None)\<rparr>"
      by (simp add: lfu_evictLeastFrequent_def bind_res_def lfu_load_def)
    with c' show ?thesis by (auto simp: lfu_frame_def)
  qed
qed

lemma lfu_payload_upd:
  "lfu_payload (s(a \<mapsto> e)) = (lfu_payload s)(a \<mapsto> (lfu_key e, lfu_value e, lfu_frequency e))"
  by (auto simp: lfu_payload_def)

lemma lfu_insert_wf:
  assumes wf: "lfu_wf c B" and k: "lfu_data c k = None"
    and r: "lfu_addToFrequency
              (c\<lparr>lfu_store := (lfu_store c)(lfu_fresh c \<mapsto>
                     \<lparr>lfu_key = k, lfu_value = v, lfu_frequency = 1,
                      lfu_prev = None, lfu_next = None\<rparr>),
                 lfu_fresh := Suc (lfu_fresh c),
                 lfu_data := (lfu_data c)(k \<mapsto> lfu_fresh c)\<rparr>)
              (lfu_fresh c) 1 = Inr c3"
  shows "(\<exists>B'. lfu_wf (c3\<lparr>lfu_minFrequency := 1\<rparr>) B') \<and>
         lfu_data c3 = (lfu_data c)(k \<mapsto> lfu_fresh c) \<and> lfu_capacity c3 = lfu_capacity c"
proof -
  from wf have B: "lfu_buckets c B" and i: "lfu_index c B"
    and fr: "\<forall>a. lfu_fresh c \<le> a \<longrightarrow> lfu_payload (lfu_store c) a = None"
    and fin: "finite (dom (lfu_data c))"
    by (simp_all add: lfu_wf_def)
  let ?n = "lfu_fresh c"
  let ?e = "\<lparr>lfu_key = k, lfu_value = v, lfu_frequency = 1, lfu_prev = None, lfu_next = None\<rparr>"
  let ?c2 = "c\<lparr>lfu_store := (lfu_store c)(?n \<mapsto> ?e), lfu_fresh := Suc ?n,
                lfu_data := (lfu_data c)(k \<mapsto> ?n)\<rparr>"
  from fr have un: "lfu_store c ?n = None" by (simp add: lfu_payload_def)
  with lfu_buckets_allocated [OF B] have nn: "?n \<notin> lfu_members B" by force
  have B2: "lfu_buckets ?c2 B"
    unfolding lfu_buckets_def
  proof
    fix g
    from B have bg: "lfu_bucket (lfu_store c) (lfu_frequencies c g) g (B g)"
      by (simp add: lfu_buckets_def)
    have "\<forall>x\<in>set (B g). lfu_store ?c2 x = lfu_store c x"
    proof
      fix x assume "x \<in> set (B g)"
      then have "x \<in> lfu_members B" unfolding lfu_members_def by blast
      with nn show "lfu_store ?c2 x = lfu_store c x" by auto
    qed
    from lfu_bucket_frame [where s' = "lfu_store ?c2", OF bg this]
    show "lfu_bucket (lfu_store ?c2) (lfu_frequencies ?c2 g) g (B g)" by simp
  qed
  have e2: "lfu_store ?c2 ?n = Some ?e" "lfu_prev ?e = None" "lfu_next ?e = None"
    "lfu_frequency ?e = 1"
    by simp_all
  from lfu_addToFrequency_buckets [OF B2 e2 nn r]
  have B3: "lfu_buckets c3 (B(1 := ?n # B 1))" and f3: "lfu_frame ?c2 c3"
    and k3: "lfu_frequencies c3 1 \<noteq> None"
    by simp_all
  let ?B3 = "B(1 := ?n # B 1)"
  have m3: "lfu_members ?B3 = insert ?n (lfu_members B)" by (rule lfu_members_add)
  from f3 have P3: "lfu_payload (lfu_store c3) = (lfu_payload (lfu_store c))(?n \<mapsto> (k, v, 1))"
    and d3: "lfu_data c3 = (lfu_data c)(k \<mapsto> ?n)" and cap3: "lfu_capacity c3 = lfu_capacity c"
    and fr3: "lfu_fresh c3 = Suc ?n"
    by (simp_all add: lfu_frame_def lfu_payload_upd)
  have i3: "lfu_index c3 ?B3"
    unfolding lfu_index_def
  proof (intro allI)
    fix k' b
    show "(lfu_data c3 k' = Some b) =
          (b \<in> lfu_members ?B3 \<and> map_option fst (lfu_payload (lfu_store c3) b) = Some k')"
    proof (cases "k' = k")
      case True
      have "\<not> (b \<in> lfu_members B \<and> map_option fst (lfu_payload (lfu_store c) b) = Some k)"
        using i k unfolding lfu_index_def by (metis option.distinct(1))
      with True nn show ?thesis unfolding P3 d3 m3 by auto
    next
      case False
      with i nn show ?thesis unfolding P3 d3 m3 by (auto simp: lfu_index_def)
    qed
  qed
  have f3': "\<forall>b. lfu_fresh c3 \<le> b \<longrightarrow> lfu_payload (lfu_store c3) b = None"
    using fr unfolding P3 fr3 by simp
  have "lfu_wf (c3\<lparr>lfu_minFrequency := 1\<rparr>) ?B3"
    unfolding lfu_wf_def using B3 i3 f3' fin k3 by (simp add: d3 lfu_buckets_def lfu_index_def)
  with d3 cap3 show ?thesis by blast
qed

lemma lfu_Add_inv:
  assumes inv: "lfu_inv c" and r: "lfu_Add c k v = Inr (c', ev, rw)"
  shows "lfu_inv c' \<and> lfu_capacity c' = lfu_capacity c"
proof -
  from inv obtain B where wf: "lfu_wf c B"
    and cd: "card (dom (lfu_data c)) \<le> unat (lfu_capacity c)" and cp: "0 < lfu_capacity c"
    by (auto simp: lfu_inv_def)
  from wf have i: "lfu_index c B" and fin: "finite (dom (lfu_data c))"
    by (simp_all add: lfu_wf_def)
  show ?thesis
  proof (cases "lfu_data c k")
    case (Some a)
    with i have a: "a \<in> lfu_members B" by (simp add: lfu_index_def)
    from wf have B: "lfu_buckets c B"
      and fr: "\<forall>a. lfu_fresh c \<le> a \<longrightarrow> lfu_payload (lfu_store c) a = None"
      and mn: "lfu_data c = Map.empty \<or> lfu_frequencies c (lfu_minFrequency c) \<noteq> None"
      by (simp_all add: lfu_wf_def)
    from lfu_buckets_allocated [OF B a] obtain e where e: "lfu_store c a = Some e" by auto
    let ?c1 = "c\<lparr>lfu_store := (lfu_store c)(a \<mapsto> e\<lparr>lfu_value := v\<rparr>)\<rparr>"
    have B1: "lfu_buckets ?c1 B"
      unfolding lfu_buckets_def
    proof
      fix g
      from B have bg: "lfu_bucket (lfu_store c) (lfu_frequencies c g) g (B g)"
        by (simp add: lfu_buckets_def)
      have "\<forall>x\<in>set (B g). lfu_links (lfu_store ?c1) x = lfu_links (lfu_store c) x \<and>
          map_option (snd \<circ> snd) (lfu_payload (lfu_store ?c1) x) =
          map_option (snd \<circ> snd) (lfu_payload (lfu_store c) x)"
        using e by (simp add: lfu_links_def lfu_payload_def)
      from lfu_bucket_cong [where s' = "lfu_store ?c1", OF bg this]
      show "lfu_bucket (lfu_store ?c1) (lfu_frequencies ?c1 g) g (B g)" by simp
    qed
    have p1: "map_option fst (lfu_payload (lfu_store ?c1) x) =
        map_option fst (lfu_payload (lfu_store c) x)"
      and p1n: "(lfu_payload (lfu_store ?c1) x = None) = (lfu_payload (lfu_store c) x = None)" for x
      using e by (simp_all add: lfu_payload_def)
    have i1: "lfu_index ?c1 B" using i unfolding lfu_index_def p1 by simp
    from fr p1n have fr1: "\<forall>x. lfu_fresh ?c1 \<le> x \<longrightarrow> lfu_payload (lfu_store ?c1) x = None"
      by simp
    have wf1: "lfu_wf ?c1 B"
      unfolding lfu_wf_def using B1 i1 fr1 fin mn by simp
    from r Some e obtain c2 where c2: "lfu_incrementFrequency ?c1 a = Inr c2" and cc: "c' = c2"
      by (auto simp: lfu_Add_def lfu_modify_def bind_res_def split: sum.splits)
    from lfu_incrementFrequency_wf [OF wf1 a c2] obtain B' where
      "lfu_wf c2 B'" "lfu_data c2 = lfu_data c" "lfu_capacity c2 = lfu_capacity c" by auto
    with cc cd cp show ?thesis by (auto simp: lfu_inv_def)
  next
    case None
    show ?thesis
    proof (cases "unat (lfu_capacity c) \<le> card (dom (lfu_data c))")
      case False
      with r None obtain c3 where
        c3: "lfu_addToFrequency
              (c\<lparr>lfu_store := (lfu_store c)(lfu_fresh c \<mapsto>
                     \<lparr>lfu_key = k, lfu_value = v, lfu_frequency = 1,
                      lfu_prev = None, lfu_next = None\<rparr>),
                 lfu_fresh := Suc (lfu_fresh c),
                 lfu_data := (lfu_data c)(k \<mapsto> lfu_fresh c)\<rparr>)
              (lfu_fresh c) 1 = Inr c3"
        and cc: "c' = c3\<lparr>lfu_minFrequency := 1\<rparr>"
        by (auto simp: lfu_Add_def bind_res_def split: sum.splits)
      from lfu_insert_wf [OF wf None c3] obtain B' where
        w: "lfu_wf (c3\<lparr>lfu_minFrequency := 1\<rparr>) B'"
          "lfu_data c3 = (lfu_data c)(k \<mapsto> lfu_fresh c)" "lfu_capacity c3 = lfu_capacity c"
        by auto
      from fin None have "card (dom ((lfu_data c)(k \<mapsto> lfu_fresh c))) = Suc (card (dom (lfu_data c)))"
        by (rule card_dom_upd_new)
      with False w cc cp show ?thesis by (auto simp: lfu_inv_def)
    next
      case True
      from cp have "0 < unat (lfu_capacity c)" by (simp add: word_less_nat_alt)
      with True have "card (dom (lfu_data c)) \<noteq> 0" by simp
      then have ne: "lfu_data c \<noteq> Map.empty" by auto
      from r None True obtain c1 c3 where c1: "lfu_evictLeastFrequent c = Inr c1"
        and c3: "lfu_addToFrequency
              (c1\<lparr>lfu_store := (lfu_store c1)(lfu_fresh c1 \<mapsto>
                     \<lparr>lfu_key = k, lfu_value = v, lfu_frequency = 1,
                      lfu_prev = None, lfu_next = None\<rparr>),
                 lfu_fresh := Suc (lfu_fresh c1),
                 lfu_data := (lfu_data c1)(k \<mapsto> lfu_fresh c1)\<rparr>)
              (lfu_fresh c1) 1 = Inr c3"
        and cc: "c' = c3\<lparr>lfu_minFrequency := 1\<rparr>"
        by (auto simp: lfu_Add_def bind_res_def split: sum.splits)
      from lfu_evictLeastFrequent_wf [OF wf ne c1] obtain k0 B1 where
        e1: "lfu_wf c1 B1" "lfu_data c k0 \<noteq> None" "lfu_data c1 = (lfu_data c)(k0 := None)"
          "lfu_capacity c1 = lfu_capacity c" by blast
      from None e1(3) have k1: "lfu_data c1 k = None" by simp
      from lfu_insert_wf [OF e1(1) k1 c3] obtain B' where
        w: "lfu_wf (c3\<lparr>lfu_minFrequency := 1\<rparr>) B'"
          "lfu_data c3 = (lfu_data c1)(k \<mapsto> lfu_fresh c1)" "lfu_capacity c3 = lfu_capacity c1"
        by auto
      from e1(1) have fin1: "finite (dom (lfu_data c1))" by (simp add: lfu_wf_def)
      from fin e1(2) have "card (dom (lfu_data c1)) = card (dom (lfu_data c)) - 1"
        unfolding e1(3) by (rule card_dom_del)
      moreover from e1(2) fin have "0 < card (dom (lfu_data c))"
        by (metis card_gt_0_iff domIff empty_iff)
      moreover from fin1 k1 have
        "card (dom ((lfu_data c1)(k \<mapsto> lfu_fresh c1))) = Suc (card (dom (lfu_data c1)))"
        by (rule card_dom_upd_new)
      ultimately have "card (dom (lfu_data c3)) = card (dom (lfu_data c))"
        unfolding w(2) by simp
      with w cc cp cd e1(4) show ?thesis by (auto simp: lfu_inv_def)
    qed
  qed
qed

section \<open>Sessions\<close>

text \<open>Construction establishes the invariants; every LRU call keeps \<open>lru_inv\<close> and returns;
  every LFU call that returns keeps \<open>lfu_inv\<close>.\<close>

lemma lru_NewCache_inv: "lru_NewCache cap = Inr c \<Longrightarrow> lru_inv c \<and> lru_capacity c = cap"
  by (auto simp: lru_NewCache_def lru_inv_def lru_wf_def lru_list_def lru_index_def
      lru_payload_def split: if_splits intro!: exI [of _ "[]"])

lemma lru_Add_inv:
  assumes "lru_inv c"
  shows "\<exists>c'. lru_Add c k v =
             Inr (c', lru_data c k = None \<and> unat (lru_capacity c) \<le> card (dom (lru_data c)),
                  lru_data c k \<noteq> None) \<and>
           lru_inv c' \<and> lru_capacity c' = lru_capacity c"
proof -
  from assms obtain as where wf: "lru_wf c as" and len: "length as \<le> unat (lru_capacity c)"
    by (auto simp: lru_inv_def)
  from lru_wf_card [OF wf] have cd: "card (dom (lru_data c)) = length as" .
  show ?thesis
  proof (cases "lru_data c k")
    case None
    from lru_Add_absent_wf [OF wf len None, of v] obtain c' as' where
      r: "lru_Add c k v = Inr (c', unat (lru_capacity c) \<le> length as, False)" "lru_wf c' as'"
        "length as' \<le> unat (lru_capacity c')" "lru_capacity c' = lru_capacity c"
      by auto
    from r(2,3) have "lru_inv c'" unfolding lru_inv_def by blast
    with r None cd show ?thesis by simp
  next
    case (Some a)
    from lru_Add_present_wf [OF wf Some, of v] obtain c' as' where
      r: "lru_Add c k v = Inr (c', False, True)" "lru_wf c' as'" "length as' = length as"
        "lru_capacity c' = lru_capacity c"
      by auto
    from r(2,3,4) len have "lru_inv c'" unfolding lru_inv_def by auto
    with r Some show ?thesis by simp
  qed
qed

lemma lru_Get_inv:
  assumes "lru_inv c"
  shows "\<exists>c' r. lru_Get c k = Inr (c', r) \<and> (r = None) = (lru_data c k = None) \<and>
           lru_inv c' \<and> lru_capacity c' = lru_capacity c \<and> lru_data c' = lru_data c"
proof -
  from assms obtain as where wf: "lru_wf c as" and len: "length as \<le> unat (lru_capacity c)"
    by (auto simp: lru_inv_def)
  from lru_Get_wf [OF wf, of k] obtain c' r as' where
    r: "lru_Get c k = Inr (c', r)" "lru_wf c' as'" "length as' = length as" "lru_frame c c'"
      "(r = None) = (lru_data c k = None)"
    by auto
  from r(4) have f: "lru_capacity c' = lru_capacity c" "lru_data c' = lru_data c"
    by (simp_all add: lru_frame_def)
  from r(2,3) f len have "lru_inv c'" unfolding lru_inv_def by auto
  with r(1,5) f show ?thesis by (intro exI [of _ c'] exI [of _ r]) simp
qed

lemma lru_Remove_inv:
  assumes "lru_inv c"
  shows "\<exists>c'. lru_Remove c k = Inr (c', lru_data c k \<noteq> None) \<and> lru_inv c' \<and>
           lru_capacity c' = lru_capacity c \<and> lru_data c' = (lru_data c)(k := None) \<and>
           lru_payload (lru_store c') = lru_payload (lru_store c) \<and>
           (lru_data c k = None \<longrightarrow> c' = c)"
proof -
  from assms obtain as where wf: "lru_wf c as" and len: "length as \<le> unat (lru_capacity c)"
    by (auto simp: lru_inv_def)
  from lru_Remove_wf [OF wf, of k] obtain c' as' where
    r: "lru_Remove c k = Inr (c', lru_data c k \<noteq> None)" "lru_wf c' as'"
      "length as' \<le> length as" "lru_data c' = (lru_data c)(k := None)"
      "lru_payload (lru_store c') = lru_payload (lru_store c)"
      "lru_capacity c' = lru_capacity c" "lru_data c k = None \<longrightarrow> c' = c"
    by auto
  from r(2,3,6) len have "lru_inv c'" unfolding lru_inv_def by auto
  with r show ?thesis by auto
qed

lemma lru_call_inv:
  assumes "lru_inv c"
  shows "\<exists>c' r. lru_call c x = Inr (c', r) \<and> lru_inv c' \<and> lru_capacity c' = lru_capacity c"
proof (cases x)
  case (Get k)
  from lru_Get_inv [OF assms, of k] Get show ?thesis by (auto simp: bind_res_def)
next
  case (Add k v)
  from lru_Add_inv [OF assms, of k v] Add show ?thesis by (auto simp: bind_res_def)
next
  case (Remove k)
  from lru_Remove_inv [OF assms, of k] Remove show ?thesis by (auto simp: bind_res_def)
qed

lemma lru_run_inv:
  "lru_inv c \<Longrightarrow>
   \<exists>c' rs. lru_run c xs = Inr (c', rs) \<and> lru_inv c' \<and> lru_capacity c' = lru_capacity c"
proof (induction xs arbitrary: c)
  case Nil
  then show ?case by simp
next
  case (Cons x xs)
  from lru_call_inv [OF Cons.prems, of x] obtain c1 r where
    c1: "lru_call c x = Inr (c1, r)" "lru_inv c1" "lru_capacity c1 = lru_capacity c" by blast
  from Cons.IH [OF c1(2)] obtain c2 rs where
    "lru_run c1 xs = Inr (c2, rs)" "lru_inv c2" "lru_capacity c2 = lru_capacity c1" by blast
  with c1 show ?case by (simp add: bind_res_def)
qed

lemma lru_session_inv:
  assumes "lru_session cap calls = Inr (Inr (c, rs))"
  shows "lru_inv c \<and> lru_capacity c = cap"
proof -
  from assms obtain c0 where c0: "lru_NewCache cap = Inr c0" "lru_run c0 calls = Inr (c, rs)"
    by (auto simp: lru_session_def split: sum.splits)
  from lru_NewCache_inv [OF c0(1)] have i0: "lru_inv c0" "lru_capacity c0 = cap" by simp_all
  from lru_run_inv [OF i0(1), of calls] c0(2) i0(2) show ?thesis by auto
qed

lemma lru_inv_card: "lru_inv c \<Longrightarrow> card (dom (lru_data c)) \<le> unat (lru_capacity c)"
  by (auto simp: lru_inv_def dest: lru_wf_card)

lemma lru_session_total:
  "cap \<noteq> 0 \<Longrightarrow> \<exists>c rs. lru_session cap (calls :: ('k, 'v) call list) = Inr (Inr (c, rs))"
proof -
  assume "cap \<noteq> 0"
  then obtain c0 :: "('k, 'v) lru_cache" where c0: "lru_NewCache cap = Inr c0"
    by (simp add: lru_NewCache_def)
  from lru_NewCache_inv [OF c0] lru_run_inv [of c0 calls] c0 show ?thesis
    by (auto simp: lru_session_def)
qed

lemma lfu_NewCache_inv: "lfu_NewCache cap = Inr c \<Longrightarrow> lfu_inv c \<and> lfu_capacity c = cap"
  by (auto simp: lfu_NewCache_def lfu_inv_def lfu_wf_def lfu_buckets_def lfu_bucket_def
      lfu_index_def lfu_members_def lfu_payload_def word_neq_0_conv
      split: if_splits intro!: exI [of _ "\<lambda>_. []"])

lemma lfu_Get_inv:
  assumes "lfu_inv c" "lfu_Get c k = Inr (c', r)"
  shows "lfu_inv c' \<and> lfu_capacity c' = lfu_capacity c"
proof -
  from assms(1) obtain B where "lfu_wf c B" by (auto simp: lfu_inv_def)
  from lfu_Get_wf [OF this assms(2)] assms(1) show ?thesis by (auto simp: lfu_inv_def)
qed

lemma lfu_Remove_inv:
  assumes "lfu_inv c"
  shows "\<exists>c'. lfu_Remove c k = Inr (c', lfu_data c k \<noteq> None) \<and> lfu_inv c' \<and>
           lfu_capacity c' = lfu_capacity c \<and> lfu_data c' = (lfu_data c)(k := None) \<and>
           lfu_payload (lfu_store c') = lfu_payload (lfu_store c) \<and>
           (lfu_data c k = None \<longrightarrow> c' = c)"
proof -
  from assms obtain B where wf: "lfu_wf c B"
    and cd: "card (dom (lfu_data c)) \<le> unat (lfu_capacity c)" and cp: "0 < lfu_capacity c"
    by (auto simp: lfu_inv_def)
  from wf have fin: "finite (dom (lfu_data c))" by (simp add: lfu_wf_def)
  from lfu_Remove_wf [OF wf, of k] obtain c' B' where
    r: "lfu_Remove c k = Inr (c', lfu_data c k \<noteq> None)" "lfu_wf c' B'"
      "lfu_data c' = (lfu_data c)(k := None)" "lfu_capacity c' = lfu_capacity c"
      "lfu_data c k = None \<longrightarrow> c' = c"
      "lfu_payload (lfu_store c') = lfu_payload (lfu_store c)"
    by auto
  from fin have "card (dom ((lfu_data c)(k := None))) \<le> card (dom (lfu_data c))"
    by (simp add: card_Diff1_le)
  with r cd cp have "lfu_inv c'" unfolding lfu_inv_def by auto
  with r show ?thesis by auto
qed

lemma lfu_call_inv:
  assumes "lfu_inv c" "lfu_call c x = Inr (c', r)"
  shows "lfu_inv c' \<and> lfu_capacity c' = lfu_capacity c"
proof (cases x)
  case (Get k)
  with assms(2) obtain r' where "lfu_Get c k = Inr (c', r')"
    by (auto simp: bind_res_def split: sum.splits)
  from lfu_Get_inv [OF assms(1) this] show ?thesis .
next
  case (Add k v)
  with assms(2) obtain ev rw where "lfu_Add c k v = Inr (c', ev, rw)"
    by (auto simp: bind_res_def split: sum.splits)
  from lfu_Add_inv [OF assms(1) this] show ?thesis .
next
  case (Remove k)
  with assms(2) lfu_Remove_inv [OF assms(1), of k] show ?thesis
    by (auto simp: bind_res_def)
qed

lemma lfu_run_inv:
  "lfu_inv c \<Longrightarrow> lfu_run c xs = Inr (c', rs) \<Longrightarrow> lfu_inv c' \<and> lfu_capacity c' = lfu_capacity c"
proof (induction xs arbitrary: c rs)
  case Nil
  then show ?case by simp
next
  case (Cons x xs)
  from Cons.prems(2) obtain c1 r rs1 where
    c1: "lfu_call c x = Inr (c1, r)" "lfu_run c1 xs = Inr (c', rs1)"
    by (auto simp: bind_res_def split: sum.splits)
  from lfu_call_inv [OF Cons.prems(1) c1(1)] have i1: "lfu_inv c1" "lfu_capacity c1 = lfu_capacity c"
    by simp_all
  from Cons.IH [OF i1(1) c1(2)] i1(2) show ?case by simp
qed

lemma lfu_session_inv:
  assumes "lfu_session cap calls = Inr (Inr (c, rs))"
  shows "lfu_inv c \<and> lfu_capacity c = cap"
proof -
  from assms obtain c0 where c0: "lfu_NewCache cap = Inr c0" "lfu_run c0 calls = Inr (c, rs)"
    by (auto simp: lfu_session_def split: sum.splits)
  from lfu_NewCache_inv [OF c0(1)] have i0: "lfu_inv c0" "lfu_capacity c0 = cap" by simp_all
  from lfu_run_inv [OF i0(1) c0(2)] i0(2) show ?thesis by simp
qed

section \<open>General properties of sessions\<close>

text \<open>The LRU engine never panics: every session on a cache that was constructed runs to
  its end. (The LFU engine has no such property, see the concrete sessions below.)\<close>

lemma lru_session_never_panics:
  "lru_session cap (calls :: ('k, 'v) call list) \<noteq> Inr (Inl p)"
proof (cases "cap = 0")
  case True
  then show ?thesis by (simp add: lru_session_def lru_NewCache_def)
next
  case False
  from lru_session_total [OF this, of calls] show ?thesis by auto
qed

text \<open>What \<open>Add\<close> returns in the LRU engine, on any cache a session has reached: rewritten
  exactly when the key is present, evicted exactly when the key is absent and the cache is
  full, never both.\<close>

lemma lru_Add_contract:
  assumes "lru_session cap calls = Inr (Inr (c, rs))"
  shows "\<exists>c'. lru_Add c k v =
             Inr (c', lru_data c k = None \<and> unat cap \<le> card (dom (lru_data c)),
                  lru_data c k \<noteq> None) \<and>
           card (dom (lru_data c')) \<le> unat cap"
proof -
  from lru_session_inv [OF assms] have i: "lru_inv c" and cp: "lru_capacity c = cap" by simp_all
  from lru_Add_inv [OF i, of k v] obtain c' where
    r: "lru_Add c k v =
          Inr (c', lru_data c k = None \<and> unat (lru_capacity c) \<le> card (dom (lru_data c)),
               lru_data c k \<noteq> None)"
      "lru_inv c'" "lru_capacity c' = lru_capacity c"
    by auto
  from lru_inv_card [OF r(2)] r(3) cp have "card (dom (lru_data c')) \<le> unat cap" by simp
  with r(1) cp show ?thesis by (intro exI [of _ c']) simp
qed

text \<open>What \<open>Add\<close> returns in the LFU engine when it returns at all: the same flags.\<close>

lemma lfu_Add_flags:
  "lfu_Add c k v = Inr (c', ev, rw) \<Longrightarrow>
   rw = (lfu_data c k \<noteq> None) \<and>
   ev = (lfu_data c k = None \<and> unat (lfu_capacity c) \<le> card (dom (lfu_data c)))"
  by (auto simp: lfu_Add_def bind_res_def split: option.splits sum.splits if_splits)

text \<open>
  Claim C6 (for both engines and every sequence of calls, the index holds at most
  \<open>capacity\<close> entries after each completed \<open>Add\<close>). A session is a construction with
  capacity \<open>cap\<close> followed by any calls; when the session that ends in \<open>Add(k, v)\<close> runs to
  its end, the index of the cache it leaves has at most \<open>cap\<close> keys.
\<close>

theorem capacity_bound_after_Add:
  "(lru_session cap (calls @ [Add k v]) = Inr (Inr (c, rs)) \<longrightarrow>
      card (dom (lru_data c)) \<le> unat cap) \<and>
   (lfu_session cap (calls @ [Add k v]) = Inr (Inr (d, rs')) \<longrightarrow>
      card (dom (lfu_data d)) \<le> unat cap)"
proof (intro conjI impI)
  assume "lru_session cap (calls @ [Add k v]) = Inr (Inr (c, rs))"
  from lru_session_inv [OF this] lru_inv_card [of c]
  show "card (dom (lru_data c)) \<le> unat cap" by simp
next
  assume "lfu_session cap (calls @ [Add k v]) = Inr (Inr (d, rs'))"
  from lfu_session_inv [OF this] show "card (dom (lfu_data d)) \<le> unat cap"
    by (auto simp: lfu_inv_def)
qed

theorem capacity_bound_after_Add_witness:
  "lru_session 2 ([Add ''a'' (1::int), Add ''b'' 2] @ [Add ''c'' 3]) =
     Inr (Inr (\<lparr>lru_data = [''b'' \<mapsto> Suc 0, ''c'' \<mapsto> Suc (Suc 0)], lru_capacity = 2,
                 lru_head = Some (Suc (Suc 0)), lru_tail = Some (Suc 0),
                 lru_store =
                   [0 \<mapsto> \<lparr>lru_key = ''a'', lru_value = 1, lru_prev = Some (Suc 0),
                           lru_next = None\<rparr>,
                    Suc (Suc 0) \<mapsto> \<lparr>lru_key = ''c'', lru_value = 3, lru_prev = None,
                                     lru_next = Some (Suc 0)\<rparr>,
                    Suc 0 \<mapsto> \<lparr>lru_key = ''b'', lru_value = 2, lru_prev = Some (Suc (Suc 0)),
                               lru_next = None\<rparr>],
                 lru_fresh = Suc (Suc (Suc 0))\<rparr>,
               [AddReply False False, AddReply False False, AddReply True False])) \<and>
   card (dom [''b'' \<mapsto> Suc 0, ''c'' \<mapsto> Suc (Suc 0)]) \<le> unat (2 :: 64 word) \<and>
   lfu_session 2 ([Add ''a'' (1::int), Add ''b'' 2] @ [Add ''c'' 3]) =
     Inr (Inr (\<lparr>lfu_data = [''b'' \<mapsto> Suc 0, ''c'' \<mapsto> Suc (Suc 0)],
                 lfu_frequencies =
                   [1 \<mapsto> \<lparr>fn_freq = 1, fn_head = EntryPtr (Some (Suc (Suc 0))),
                           fn_tail = EntryPtr (Some (Suc 0))\<rparr>],
                 lfu_capacity = 2, lfu_minFrequency = 1,
                 lfu_store =
                   [0 \<mapsto> \<lparr>lfu_key = ''a'', lfu_value = 1, lfu_frequency = 1,
                           lfu_prev = None, lfu_next = None\<rparr>,
                    Suc (Suc 0) \<mapsto> \<lparr>lfu_key = ''c'', lfu_value = 3, lfu_frequency = 1,
                                     lfu_prev = None, lfu_next = Some (Suc 0)\<rparr>,
                    Suc 0 \<mapsto> \<lparr>lfu_key = ''b'', lfu_value = 2, lfu_frequency = 1,
                               lfu_prev = Some (Suc (Suc 0)), lfu_next = None\<rparr>],
                 lfu_fresh = Suc (Suc (Suc 0))\<rparr>,
               [AddReply False False, AddReply False False, AddReply True False]))"
  (is "?l = Inr (Inr (?c, ?rs)) \<and> ?b \<and> ?f = Inr (Inr (?d, ?rs'))")
proof -
  have l: "?l = Inr (Inr (?c, ?rs))" by (simp add: lru_defs)
  have f: "?f = Inr (Inr (?d, ?rs'))" by (simp add: lfu_defs)
  from capacity_bound_after_Add [of 2 "[Add ''a'' (1::int), Add ''b'' 2]" "''c''" 3 ?c ?rs ?d ?rs']
    l f
  have "card (dom (lru_data ?c)) \<le> unat (2 :: 64 word)" by blast
  then have "?b" by simp
  with l f show ?thesis by blast
qed

text \<open>
  Claim C9 (\<open>Remove\<close> on a present key returns true and a later \<open>Get\<close> of that key misses;
  on an absent key it returns false and leaves the whole state unchanged; it removes no
  other entry). On every cache that a session has reached, in both engines: \<open>Remove(k)\<close>
  returns, its result says whether \<open>k\<close> was in the index, the new index is the old one
  without \<open>k\<close>, the key and value stored at every address are as before, a \<open>Get(k)\<close> on
  the new cache misses and changes nothing, and when \<open>k\<close> was absent the cache is the same
  as before.
\<close>

theorem Remove_contract:
  "(lru_session cap calls = Inr (Inr (c, rs)) \<longrightarrow>
      (\<exists>c'. lru_Remove c k = Inr (c', lru_data c k \<noteq> None) \<and>
            lru_data c' = (lru_data c)(k := None) \<and>
            lru_payload (lru_store c') = lru_payload (lru_store c) \<and>
            lru_Get c' k = Inr (c', None) \<and>
            (lru_data c k = None \<longrightarrow> c' = c))) \<and>
   (lfu_session cap calls = Inr (Inr (d, rs')) \<longrightarrow>
      (\<exists>d'. lfu_Remove d k = Inr (d', lfu_data d k \<noteq> None) \<and>
            lfu_data d' = (lfu_data d)(k := None) \<and>
            lfu_payload (lfu_store d') = lfu_payload (lfu_store d) \<and>
            lfu_Get d' k = Inr (d', None) \<and>
            (lfu_data d k = None \<longrightarrow> d' = d)))"
proof (intro conjI impI)
  assume "lru_session cap calls = Inr (Inr (c, rs))"
  from lru_session_inv [OF this] have "lru_inv c" by simp
  from lru_Remove_inv [OF this, of k] obtain c' where
    r: "lru_Remove c k = Inr (c', lru_data c k \<noteq> None)" "lru_data c' = (lru_data c)(k := None)"
      "lru_data c k = None \<longrightarrow> c' = c" "lru_payload (lru_store c') = lru_payload (lru_store c)"
    by auto
  from r(2) have "lru_Get c' k = Inr (c', None)" by (simp add: lru_Get_def)
  with r show "\<exists>c'. lru_Remove c k = Inr (c', lru_data c k \<noteq> None) \<and>
            lru_data c' = (lru_data c)(k := None) \<and>
            lru_payload (lru_store c') = lru_payload (lru_store c) \<and>
            lru_Get c' k = Inr (c', None) \<and>
            (lru_data c k = None \<longrightarrow> c' = c)"
    by (intro exI [of _ c']) simp
next
  assume "lfu_session cap calls = Inr (Inr (d, rs'))"
  from lfu_session_inv [OF this] have "lfu_inv d" by simp
  from lfu_Remove_inv [OF this, of k] obtain d' where
    r: "lfu_Remove d k = Inr (d', lfu_data d k \<noteq> None)" "lfu_data d' = (lfu_data d)(k := None)"
      "lfu_data d k = None \<longrightarrow> d' = d" "lfu_payload (lfu_store d') = lfu_payload (lfu_store d)"
    by auto
  from r(2) have "lfu_Get d' k = Inr (d', None)" by (simp add: lfu_Get_def)
  with r show "\<exists>d'. lfu_Remove d k = Inr (d', lfu_data d k \<noteq> None) \<and>
            lfu_data d' = (lfu_data d)(k := None) \<and>
            lfu_payload (lfu_store d') = lfu_payload (lfu_store d) \<and>
            lfu_Get d' k = Inr (d', None) \<and>
            (lfu_data d k = None \<longrightarrow> d' = d)"
    by (intro exI [of _ d']) simp
qed

theorem Remove_contract_witness:
  "lru_session 2 [Add ''a'' (1::int), Add ''b'' 2] =
     Inr (Inr (\<lparr>lru_data = [''a'' \<mapsto> 0, ''b'' \<mapsto> Suc 0], lru_capacity = 2,
                 lru_head = Some (Suc 0), lru_tail = Some 0,
                 lru_store =
                   [Suc 0 \<mapsto> \<lparr>lru_key = ''b'', lru_value = 2, lru_prev = None,
                               lru_next = Some 0\<rparr>,
                    0 \<mapsto> \<lparr>lru_key = ''a'', lru_value = 1, lru_prev = Some (Suc 0),
                           lru_next = None\<rparr>],
                 lru_fresh = Suc (Suc 0)\<rparr>,
               [AddReply False False, AddReply False False])) \<and>
   lfu_session 2 [Add ''a'' (1::int), Add ''b'' 2] =
     Inr (Inr (\<lparr>lfu_data = [''a'' \<mapsto> 0, ''b'' \<mapsto> Suc 0],
                 lfu_frequencies =
                   [1 \<mapsto> \<lparr>fn_freq = 1, fn_head = EntryPtr (Some (Suc 0)),
                           fn_tail = EntryPtr (Some 0)\<rparr>],
                 lfu_capacity = 2, lfu_minFrequency = 1,
                 lfu_store =
                   [Suc 0 \<mapsto> \<lparr>lfu_key = ''b'', lfu_value = 2, lfu_frequency = 1,
                               lfu_prev = None, lfu_next = Some 0\<rparr>,
                    0 \<mapsto> \<lparr>lfu_key = ''a'', lfu_value = 1, lfu_frequency = 1,
                           lfu_prev = Some (Suc 0), lfu_next = None\<rparr>],
                 lfu_fresh = Suc (Suc 0)\<rparr>,
               [AddReply False False, AddReply False False])) \<and>
   (\<exists>c'. lru_Remove
           \<lparr>lru_data = [''a'' \<mapsto> 0, ''b'' \<mapsto> Suc 0], lru_capacity = 2,
              lru_head = Some (Suc 0), lru_tail = Some 0,
              lru_store =
                [Suc 0 \<mapsto> \<lparr>lru_key = ''b'', lru_value = (2::int), lru_prev = None,
                            lru_next = Some 0\<rparr>,
                 0 \<mapsto> \<lparr>lru_key = ''a'', lru_value = 1, lru_prev = Some (Suc 0),
                        lru_next = None\<rparr>],
              lru_fresh = Suc (Suc 0)\<rparr> ''a'' = Inr (c', True) \<and>
         lru_data c' = [''b'' \<mapsto> Suc 0] \<and> lru_Get c' ''a'' = Inr (c', None)) \<and>
   (\<exists>d'. lfu_Remove
           \<lparr>lfu_data = [''a'' \<mapsto> 0, ''b'' \<mapsto> Suc 0],
              lfu_frequencies =
                [1 \<mapsto> \<lparr>fn_freq = 1, fn_head = EntryPtr (Some (Suc 0)),
                        fn_tail = EntryPtr (Some 0)\<rparr>],
              lfu_capacity = 2, lfu_minFrequency = 1,
              lfu_store =
                [Suc 0 \<mapsto> \<lparr>lfu_key = ''b'', lfu_value = (2::int), lfu_frequency = 1,
                            lfu_prev = None, lfu_next = Some 0\<rparr>,
                 0 \<mapsto> \<lparr>lfu_key = ''a'', lfu_value = 1, lfu_frequency = 1,
                        lfu_prev = Some (Suc 0), lfu_next = None\<rparr>],
              lfu_fresh = Suc (Suc 0)\<rparr> ''a'' = Inr (d', True) \<and>
         lfu_data d' = [''b'' \<mapsto> Suc 0] \<and> lfu_Get d' ''a'' = Inr (d', None))"
  (is "?l = Inr (Inr (?c, ?rs)) \<and> ?f = Inr (Inr (?d, ?rs')) \<and> ?P \<and> ?Q")
proof -
  have l: "?l = Inr (Inr (?c, ?rs))" by (simp add: lru_defs)
  have f: "?f = Inr (Inr (?d, ?rs'))" by (simp add: lfu_defs)
  have e: "((lru_data ?c)(''a'' := None)) = [''b'' \<mapsto> Suc 0]"
    "((lfu_data ?d)(''a'' := None)) = [''b'' \<mapsto> Suc 0]"
    by (auto simp: fun_eq_iff)
  from Remove_contract [of 2 "[Add ''a'' (1::int), Add ''b'' 2]" ?c ?rs "''a''" ?d ?rs'] l f
  obtain c' d' where
    "lru_Remove ?c ''a'' = Inr (c', lru_data ?c ''a'' \<noteq> None)"
    "lru_data c' = (lru_data ?c)(''a'' := None)" "lru_Get c' ''a'' = Inr (c', None)"
    "lfu_Remove ?d ''a'' = Inr (d', lfu_data ?d ''a'' \<noteq> None)"
    "lfu_data d' = (lfu_data ?d)(''a'' := None)" "lfu_Get d' ''a'' = Inr (d', None)"
    by auto
  with e have "?P" "?Q" by auto
  with l f show ?thesis by blast
qed

text \<open>\<open>NewCache\<close> itself, in both engines: an error exactly for capacity 0, and otherwise an
  empty cache of that capacity.\<close>

lemma lru_NewCache_contract:
  "(lru_NewCache cap = Inl ''must provide a positive size'') = (cap = 0)"
  "cap \<noteq> 0 \<Longrightarrow>
   lru_NewCache cap =
     Inr \<lparr>lru_data = Map.empty, lru_capacity = cap, lru_head = None, lru_tail = None,
          lru_store = Map.empty, lru_fresh = 0\<rparr>"
  by (simp_all add: lru_NewCache_def)

lemma lfu_NewCache_contract:
  "(lfu_NewCache cap = Inl ''must provide a positive size'') = (cap = 0)"
  "cap \<noteq> 0 \<Longrightarrow>
   lfu_NewCache cap =
     Inr \<lparr>lfu_data = Map.empty, lfu_frequencies = Map.empty, lfu_capacity = cap,
          lfu_minFrequency = 0, lfu_store = Map.empty, lfu_fresh = 0\<rparr>"
  by (simp_all add: lfu_NewCache_def)

section \<open>Concrete sessions\<close>

text \<open>
  Claim C1 (every call after a successful construction completes normally, for both engines,
  also after a bucket has been emptied). The LFU engine breaks it: with capacity 1 the
  second \<open>Add\<close> of a new key evicts the only entry, which leaves bucket 1 in the map with a
  head that holds a nil \<open>*entry\<close> pointer; \<open>addToFrequency\<close> then finds
  \<open>freqNode.head != nil\<close> and writes through that nil pointer.
\<close>

theorem lfu_Add_into_emptied_bucket_panics:
  "lfu_session 1 [Add ''k1'' (1::int), Add ''k2'' 2] = Inr (Inl NilDereference)"
  by (simp add: lfu_defs)

text \<open>
  Claim C2 (a frequency is a key of the frequencies map exactly when its bucket holds an
  entry; an emptied bucket is deleted in the same operation). After \<open>Add(k1); Remove(k1)\<close>
  the cache holds no entry, and bucket 1 is still in the map, its head and tail nil pointers
  of type \<open>*entry\<close>: the test \<open>freqNode.head == nil\<close> compares an interface and fails.
\<close>

theorem lfu_emptied_bucket_stays_in_map:
  "lfu_session 1 [Add ''k1'' (1::int), Remove ''k1''] =
     Inr (Inr (\<lparr>lfu_data = Map.empty,
                 lfu_frequencies =
                   [1 \<mapsto> \<lparr>fn_freq = 1, fn_head = EntryPtr None, fn_tail = EntryPtr None\<rparr>],
                 lfu_capacity = 1, lfu_minFrequency = 1,
                 lfu_store =
                   [0 \<mapsto> \<lparr>lfu_key = ''k1'', lfu_value = 1, lfu_frequency = 1,
                           lfu_prev = None, lfu_next = None\<rparr>],
                 lfu_fresh = 1\<rparr>,
               [AddReply False False, RemoveReply True]))"
  by (simp add: lfu_defs)

text \<open>
  Claim C3 (\<open>minFrequency\<close> is the smallest frequency with a non-empty bucket; it advances
  when \<open>incrementFrequency\<close> promotes the last entry out of the minimum bucket). After
  \<open>Add(k1); Get(k1)\<close> the only entry has frequency 2 and sits in bucket 2, bucket 1 is empty
  but still in the map, and \<open>minFrequency\<close> is still 1.
\<close>

theorem lfu_minFrequency_not_advanced:
  "lfu_session 1 [Add ''k1'' (1::int), Get ''k1''] =
     Inr (Inr (\<lparr>lfu_data = [''k1'' \<mapsto> 0],
                 lfu_frequencies =
                   [1 \<mapsto> \<lparr>fn_freq = 1, fn_head = EntryPtr None, fn_tail = EntryPtr None\<rparr>,
                    2 \<mapsto> \<lparr>fn_freq = 2, fn_head = EntryPtr (Some 0),
                           fn_tail = EntryPtr (Some 0)\<rparr>],
                 lfu_capacity = 1, lfu_minFrequency = 1,
                 lfu_store =
                   [0 \<mapsto> \<lparr>lfu_key = ''k1'', lfu_value = 1, lfu_frequency = 2,
                           lfu_prev = None, lfu_next = None\<rparr>],
                 lfu_fresh = 1\<rparr>,
               [AddReply False False, GetReply (Some 1)]))"
  by (simp add: lfu_defs)

text \<open>
  Claim C4 (capacity 3, \<open>Add(k1,1); Add(k2,2); Add(k3,3); Get(k1); Get(k1); Get(k2);
  Add(k4,4)\<close> evicts \<open>k3\<close>, and \<open>k1\<close>, \<open>k2\<close> still hit). The session does not get that far:
  the first five calls succeed, the second \<open>Get(k1)\<close> empties bucket 2, and \<open>Get(k2)\<close>
  panics when it adds \<open>k2\<close> to that bucket.
\<close>

theorem lfu_frequency_priority_session_panics:
  "replies_of (lfu_session 3 [Add ''k1'' (1::int), Add ''k2'' 2, Add ''k3'' 3,
                              Get ''k1'', Get ''k1'']) =
     Some [AddReply False False, AddReply False False, AddReply False False,
           GetReply (Some 1), GetReply (Some 1)] \<and>
   lfu_session 3 [Add ''k1'' (1::int), Add ''k2'' 2, Add ''k3'' 3,
                  Get ''k1'', Get ''k1'', Get ''k2''] = Inr (Inl NilDereference) \<and>
   lfu_session 3 [Add ''k1'' (1::int), Add ''k2'' 2, Add ''k3'' 3,
                  Get ''k1'', Get ''k1'', Get ''k2'', Add ''k4'' 4] = Inr (Inl NilDereference)"
  by (simp add: lfu_defs)

text \<open>
  Claim C7 (LRU, capacity 2: \<open>Add(a,1); Add(b,2); Get(a); Add(c,3)\<close> evicts exactly \<open>b\<close>,
  and \<open>Get(a)\<close>, \<open>Get(c)\<close> hit afterwards). For any three distinct keys and any values: the
  fourth call reports an eviction, the keys left in the index are \<open>a\<close> and \<open>c\<close>, and the
  two later reads return the stored values.
\<close>

theorem lru_order_session:
  "a \<noteq> b \<Longrightarrow> a \<noteq> c \<Longrightarrow> b \<noteq> c \<Longrightarrow>
   replies_of (lru_session 2 [Add a v1, Add b v2, Get a, Add c v3]) =
     Some [AddReply False False, AddReply False False, GetReply (Some v1), AddReply True False] \<and>
   map_option (\<lambda>s. dom (lru_data s)) (state_of (lru_session 2 [Add a v1, Add b v2, Get a, Add c v3])) =
     Some {a, c} \<and>
   replies_of (lru_session 2 [Add a v1, Add b v2, Get a, Add c v3, Get a, Get c, Get b]) =
     Some [AddReply False False, AddReply False False, GetReply (Some v1), AddReply True False,
           GetReply (Some v1), GetReply (Some v3), GetReply None]"
  by (auto simp add: lru_defs)

theorem lru_order_session_witness:
  "''a'' \<noteq> ''b'' \<and> ''a'' \<noteq> ''c'' \<and> ''b'' \<noteq> ''c'' \<and>
   replies_of (lru_session 2 [Add ''a'' (1::int), Add ''b'' 2, Get ''a'', Add ''c'' 3]) =
     Some [AddReply False False, AddReply False False, GetReply (Some 1), AddReply True False] \<and>
   map_option (\<lambda>s. dom (lru_data s))
     (state_of (lru_session 2 [Add ''a'' (1::int), Add ''b'' 2, Get ''a'', Add ''c'' 3])) =
     Some {''a'', ''c''} \<and>
   replies_of (lru_session 2 [Add ''a'' (1::int), Add ''b'' 2, Get ''a'', Add ''c'' 3,
                              Get ''a'', Get ''c'', Get ''b'']) =
     Some [AddReply False False, AddReply False False, GetReply (Some 1), AddReply True False,
           GetReply (Some 1), GetReply (Some 3), GetReply None]"
  using lru_order_session [of "''a''" "''b''" "''c''" "1::int" 2 3] by simp

text \<open>
  Claim C8 (what \<open>Add\<close> returns in its three cases, for both engines). In the LFU engine
  each case can fail to return. Rewriting a present key: capacity 2, \<open>k1\<close> is read twice
  and leaves bucket 2 empty, then \<open>Add(k2, 5)\<close> on the present key \<open>k2\<close> promotes it into
  bucket 2 and panics. A new key with spare capacity: capacity 2, \<open>Add(k1); Get(k1);
  Add(k2)\<close> panics on the emptied bucket 1.
\<close>

theorem lfu_Add_does_not_return:
  "lfu_session 2 [Add ''k1'' (1::int), Add ''k2'' 2, Get ''k1'', Get ''k1'', Add ''k2'' 5] =
     Inr (Inl NilDereference) \<and>
   lfu_session 2 [Add ''k1'' (1::int), Get ''k1'', Add ''k2'' 2] = Inr (Inl NilDereference)"
  by (simp add: lfu_defs)

text \<open>
  Claim C10 (\<open>NewCache\<close> fails exactly for capacity 0 and succeeds otherwise, and this check
  is the only failure path of the library). The part about \<open>NewCache\<close> holds
  (\<open>lru_NewCache_contract\<close>, \<open>lfu_NewCache_contract\<close>); the last part does not: an LFU cache
  constructed with capacity 1 panics on \<open>Add(k1); Remove(k1); Add(k1)\<close>, where the second
  \<open>Add\<close> finds the emptied bucket 1 still in the map.
\<close>

theorem lfu_failure_path_after_construction:
  "(lfu_NewCache 1 :: string + (string, int) lfu_cache) =
     Inr \<lparr>lfu_data = Map.empty, lfu_frequencies = Map.empty, lfu_capacity = 1,
          lfu_minFrequency = 0, lfu_store = Map.empty, lfu_fresh = 0\<rparr> \<and>
   lfu_session 1 [Add ''k1'' (1::int), Remove ''k1'', Add ''k1'' 1] = Inr (Inl NilDereference)"
  by (simp add: lfu_defs)

end
